theory Spec2Isabelle
  imports Complex_Main "HOL-Library.AList"
begin

section \<open>Python values used by the pipeline\<close>

text \<open>
  Exceptions of the source are values.  Only the exception classes that the modelled
  code can raise are listed.
\<close>

datatype py_error = IndexError | ValueError

text \<open>
  Identifiers, stage tags and dictionary keys are Python \<open>str\<close> objects that the code
  only compares, concatenates and tests for emptiness; they are modelled as \<open>string\<close>.
  \<open>str(count)\<close> inside an f-string prints a Python \<open>int\<close> in decimal.
\<close>

definition digit_char :: "nat \<Rightarrow> char" where
  "digit_char d = ''0123456789'' ! d"

function str_nat :: "nat \<Rightarrow> string" where
  "str_nat n = (if n < 10 then [digit_char n] else str_nat (n div 10) @ [digit_char (n mod 10)])"
  by pat_completeness auto
termination
  by (relation "measure id") auto

definition str_int :: "int \<Rightarrow> string" where
  "str_int i = (if i < 0 then CHR ''-'' # str_nat (nat (- i)) else str_nat (nat i))"

text \<open>\<open>needle in haystack\<close> on strings: substring search.\<close>

fun starts_with :: "'a list \<Rightarrow> 'a list \<Rightarrow> bool" where
  "starts_with [] ys = True"
| "starts_with (x # xs) [] = False"
| "starts_with (x # xs) (y # ys) = (x = y \<and> starts_with xs ys)"

fun str_contains :: "'a list \<Rightarrow> 'a list \<Rightarrow> bool" where
  "str_contains needle [] = (needle = [])"
| "str_contains needle (c # cs) = (starts_with needle (c # cs) \<or> str_contains needle cs)"

section \<open>git\_manager.py: the Checkpoint Coordinator\<close>

text \<open>
  \<open>GitManager\<close> keeps \<open>commit_count\<close> and \<open>last_push_time\<close>
  (\<open>None\<close> until the first successful push).  A \<open>datetime\<close> is modelled as the
  number of microseconds since the epoch, so that \<open>total_seconds() > 3600\<close> is
  \<open>3600000000 < elapsed\<close> (the float division by \<open>10^6\<close> is exact enough below
  \<open>2^53\<close> microseconds to leave the comparison unchanged).
\<close>

record git_manager =
  commit_count :: int
  last_push_time :: "int option"

text \<open>
  The outcome of one \<open>subprocess.run\<close> call: a completed process with its return
  code, stdout and stderr, a \<open>TimeoutExpired\<close>, or any other exception.
\<close>

datatype proc_result = Completed int string string | TimeoutExpired | OtherException

text \<open>
  Everything one call of \<open>commit_and_push_if_needed\<close> reads from outside the object:
  the outcomes of the three git commands and the readings of \<open>datetime.now()\<close>, in
  the order the code takes them (the formatted timestamp of the commit message, the
  reading inside \<open>_is_hourly_push_needed\<close>, the reading stored after a push).
\<close>

record git_env =
  add_proc :: proc_result
  commit_proc :: proc_result
  push_proc :: proc_result
  timestamp :: string
  now_check :: int
  now_push :: int

text \<open>The git commands a call runs, in order.\<close>

datatype git_op = GitAdd | GitCommit string | GitPush

definition commit_conditions :: "int \<Rightarrow> (string \<times> bool) list" where
  "commit_conditions count =
     [(''metadata'', count mod 10 = 0),
      (''abstract'', count mod 5 = 0),
      (''fulltext'', count mod 3 = 0),
      (''ocr'', count mod 2 = 0),
      (''batch_complete'', True),
      (''status_update'', True)]"

definition should_commit :: "string \<Rightarrow> int \<Rightarrow> bool \<Rightarrow> bool" where
  "should_commit stage count force_push =
     (if force_push then True
      else (case map_of (commit_conditions count) stage of Some b \<Rightarrow> b | None \<Rightarrow> False))"

definition is_hourly_push_needed :: "git_env \<Rightarrow> git_manager \<Rightarrow> bool" where
  "is_hourly_push_needed env gm =
     (case last_push_time gm of
        None \<Rightarrow> True
      | Some t \<Rightarrow> 3600000000 < now_check env - t)"

definition push_conditions :: "git_env \<Rightarrow> git_manager \<Rightarrow> int \<Rightarrow> (string \<times> bool) list" where
  "push_conditions env gm count =
     [(''metadata'', count mod 50 = 0),
      (''abstract'', count mod 25 = 0),
      (''fulltext'', count mod 10 = 0),
      (''ocr'', count mod 5 = 0),
      (''batch_complete'', True),
      (''status_update'', True),
      (''hourly'', is_hourly_push_needed env gm)]"

definition should_push :: "git_env \<Rightarrow> git_manager \<Rightarrow> string \<Rightarrow> int \<Rightarrow> bool \<Rightarrow> bool" where
  "should_push env gm stage count force_push =
     (if force_push then True
      else (case map_of (push_conditions env gm count) stage of Some b \<Rightarrow> b | None \<Rightarrow> False))"

definition stage_changes :: "git_env \<Rightarrow> bool" where
  "stage_changes env =
     (case add_proc env of
        Completed rc out err \<Rightarrow> rc = 0
      | TimeoutExpired \<Rightarrow> False
      | OtherException \<Rightarrow> False)"

definition commit_changes :: "git_env \<Rightarrow> bool" where
  "commit_changes env =
     (case commit_proc env of
        Completed rc out err \<Rightarrow>
          (if rc \<noteq> 0 then (if str_contains ''nothing to commit'' out then True else False)
           else True)
      | TimeoutExpired \<Rightarrow> False
      | OtherException \<Rightarrow> False)"

definition push_changes :: "git_env \<Rightarrow> bool" where
  "push_changes env =
     (case push_proc env of
        Completed rc out err \<Rightarrow> rc = 0
      | TimeoutExpired \<Rightarrow> False
      | OtherException \<Rightarrow> False)"

definition commit_messages :: "git_env \<Rightarrow> int \<Rightarrow> (string \<times> string) list" where
  "commit_messages env count =
     [(''metadata'', ''Add '' @ str_int count @ '' article metadata entries - '' @ timestamp env),
      (''abstract'', ''Process '' @ str_int count @ '' article abstracts - '' @ timestamp env),
      (''fulltext'', ''Download '' @ str_int count @ '' full text articles - '' @ timestamp env),
      (''ocr'', ''Complete OCR processing for '' @ str_int count @ '' articles - '' @ timestamp env),
      (''batch_complete'',
         ''Complete batch processing - '' @ str_int count @ '' total articles - '' @ timestamp env),
      (''status_update'', ''Update status page and metrics - '' @ timestamp env),
      (''hourly'', ''Hourly backup - '' @ str_int count @ '' articles processed - '' @ timestamp env)]"

definition create_commit_message :: "git_env \<Rightarrow> string \<Rightarrow> int \<Rightarrow> string" where
  "create_commit_message env stage count =
     (case map_of (commit_messages env count) stage of
        Some m \<Rightarrow> m
      | None \<Rightarrow> ''Update processing stage '' @ stage @ '' - '' @ str_int count @ '' items - ''
                  @ timestamp env)"

text \<open>
  \<open>commit_and_push_if_needed\<close> returns the boolean of the source, the updated object and
  the git commands that were run.  The result of \<open>_stage_changes\<close> is ignored by the
  source.  None of the helpers lets an exception escape, so the outer handler of the
  source is never entered.
\<close>

definition commit_and_push_if_needed ::
    "git_env \<Rightarrow> git_manager \<Rightarrow> string \<Rightarrow> int \<Rightarrow> bool \<Rightarrow> bool \<times> git_manager \<times> git_op list" where
  "commit_and_push_if_needed env gm stage count force_push =
     (if \<not> should_commit stage count force_push then (False, gm, [])
      else
        let staged = stage_changes env;
            commit_message = create_commit_message env stage count;
            success = commit_changes env
        in if \<not> success then (False, gm, [GitAdd, GitCommit commit_message])
           else
             let gm1 = gm\<lparr>commit_count := commit_count gm + 1\<rparr>
             in if should_push env gm1 stage count force_push then
                  (if push_changes env
                   then (True, gm1\<lparr>last_push_time := Some (now_push env)\<rparr>,
                         [GitAdd, GitCommit commit_message, GitPush])
                   else (False, gm1, [GitAdd, GitCommit commit_message, GitPush]))
                else (True, gm1, [GitAdd, GitCommit commit_message]))"

text \<open>The three components of a call's outcome.\<close>

definition returned :: "bool \<times> git_manager \<times> git_op list \<Rightarrow> bool" where
  "returned r = fst r"

definition manager_after :: "bool \<times> git_manager \<times> git_op list \<Rightarrow> git_manager" where
  "manager_after r = fst (snd r)"

definition git_trace :: "bool \<times> git_manager \<times> git_op list \<Rightarrow> git_op list" where
  "git_trace r = snd (snd r)"


text \<open>An environment in which every git command succeeds.\<close>

definition env_ok :: git_env where
  "env_ok = \<lparr>add_proc = Completed 0 [] [], commit_proc = Completed 0 [] [],
             push_proc = Completed 0 [] [], timestamp = ''2024-01-01 00:00:00'',
             now_check = 7200000000, now_push = 7200000001\<rparr>"

definition env_commit_fails :: git_env where
  "env_commit_fails = env_ok\<lparr>commit_proc := Completed 1 [] ''fatal''\<rparr>"

definition env_push_fails :: git_env where
  "env_push_fails = env_ok\<lparr>push_proc := Completed 1 [] ''rejected''\<rparr>"

definition gm_init :: git_manager where
  "gm_init = \<lparr>commit_count = 0, last_push_time = None\<rparr>"

section \<open>background\_processor.py: the chunker\<close>

text \<open>
  The text handed to \<open>_create_rag_chunks\<close> is a Python \<open>str\<close> whose length and
  whitespace are counted per code point, so it is modelled as the list of its code
  points.  \<open>is_space\<close> is the whitespace of \<open>str.split()\<close> and \<open>str.strip()\<close>
  without arguments.
\<close>

type_synonym ustr = "nat list"

definition is_space :: "nat \<Rightarrow> bool" where
  "is_space c =
     ((9 \<le> c \<and> c \<le> 13) \<or> (28 \<le> c \<and> c \<le> 32) \<or> c = 133 \<or> c = 160 \<or> c = 5760 \<or>
      (8192 \<le> c \<and> c \<le> 8202) \<or> c = 8232 \<or> c = 8233 \<or> c = 8239 \<or> c = 8287 \<or> c = 12288)"

text \<open>
  \<open>text.split()\<close>: one scan from the left; \<open>cur\<close> is the word being read.  Runs of
  whitespace separate words and produce no empty word.
\<close>

fun split_from :: "ustr \<Rightarrow> ustr \<Rightarrow> ustr list" where
  "split_from cur [] = (if cur = [] then [] else [cur])"
| "split_from cur (c # cs) =
     (if is_space c then (if cur = [] then split_from [] cs else cur # split_from [] cs)
      else split_from (cur @ [c]) cs)"

definition str_split :: "ustr \<Rightarrow> ustr list" where
  "str_split s = split_from [] s"

definition str_strip :: "ustr \<Rightarrow> ustr" where
  "str_strip s = rev (dropWhile is_space (rev (dropWhile is_space s)))"

fun str_join :: "'a list \<Rightarrow> 'a list list \<Rightarrow> 'a list" where
  "str_join sep [] = []"
| "str_join sep [w] = w"
| "str_join sep (w # v # ws) = w @ sep @ str_join sep (v # ws)"

text \<open>
  \<open>xs[lo:hi]\<close>: a negative bound counts from the end, both bounds are clipped to the
  list, and an empty range gives the empty list.
\<close>

definition slice_index :: "int \<Rightarrow> int \<Rightarrow> nat" where
  "slice_index n k = nat (if k < 0 then max (k + n) 0 else min k n)"

definition py_slice :: "'a list \<Rightarrow> int \<Rightarrow> int \<Rightarrow> 'a list" where
  "py_slice xs lo hi =
     (let n = int (length xs); a = slice_index n lo; b = slice_index n hi
      in take (b - a) (drop a xs))"

text \<open>
  \<open>range(start, stop, step)\<close>: a zero step raises \<open>ValueError\<close>; a positive step counts
  up while below \<open>stop\<close>, a negative one counts down while above it.
\<close>

function range_up :: "int \<Rightarrow> int \<Rightarrow> int \<Rightarrow> int list" where
  "range_up i stop step = (if 0 < step \<and> i < stop then i # range_up (i + step) stop step else [])"
  by pat_completeness auto
termination
  by (relation "measure (\<lambda>(i, stop, step). nat (stop - i))") auto

function range_down :: "int \<Rightarrow> int \<Rightarrow> int \<Rightarrow> int list" where
  "range_down i stop step =
     (if step < 0 \<and> stop < i then i # range_down (i + step) stop step else [])"
  by pat_completeness auto
termination
  by (relation "measure (\<lambda>(i, stop, step). nat (i - stop))") auto

declare range_up.simps [simp del] range_down.simps [simp del] str_nat.simps [simp del]

definition py_range :: "int \<Rightarrow> int \<Rightarrow> int \<Rightarrow> py_error + int list" where
  "py_range start stop step =
     (if step = 0 then Inl ValueError
      else if 0 < step then Inr (range_up start stop step)
      else Inr (range_down start stop step))"

record chunk =
  chunk_pmid :: string
  chunk_id :: string
  chunk_text :: ustr
  start_word :: int
  end_word :: int
  word_count :: int

text \<open>
  The window at index \<open>i\<close>: the words \<open>words[i:i + chunk_size]\<close> and their text
  \<open>' '.join(chunk_words)\<close>.
\<close>

definition window_words :: "ustr list \<Rightarrow> int \<Rightarrow> int \<Rightarrow> ustr list" where
  "window_words words chunk_size i = py_slice words i (i + chunk_size)"

definition window_text :: "ustr list \<Rightarrow> int \<Rightarrow> int \<Rightarrow> ustr" where
  "window_text words chunk_size i = str_join [32] (window_words words chunk_size i)"

text \<open>
  The body of the \<open>for\<close> loop of \<open>_create_rag_chunks\<close> at index \<open>i\<close>;
  \<open>chunks\<close> is the list built so far.
\<close>

definition chunk_body :: "ustr list \<Rightarrow> string \<Rightarrow> int \<Rightarrow> chunk list \<Rightarrow> int \<Rightarrow> chunk list" where
  "chunk_body words pmid chunk_size chunks i =
     (let chunk_words = window_words words chunk_size i;
          ctext = window_text words chunk_size i
      in if 50 < length (str_strip ctext)
         then chunks @ [\<lparr>chunk_pmid = pmid,
                         chunk_id = pmid @ ''_'' @ str_nat (length chunks),
                         chunk_text = ctext,
                         start_word = i,
                         end_word = min (i + chunk_size) (int (length words)),
                         word_count = int (length chunk_words)\<rparr>]
         else chunks)"

text \<open>The loop runs the body over the indices that \<open>range\<close> yields, in order.\<close>

fun chunk_loop :: "ustr list \<Rightarrow> string \<Rightarrow> int \<Rightarrow> int list \<Rightarrow> chunk list \<Rightarrow> chunk list" where
  "chunk_loop words pmid chunk_size [] chunks = chunks"
| "chunk_loop words pmid chunk_size (i # rest) chunks =
     chunk_loop words pmid chunk_size rest (chunk_body words pmid chunk_size chunks i)"

definition create_rag_chunks :: "ustr \<Rightarrow> string \<Rightarrow> int \<Rightarrow> int \<Rightarrow> py_error + chunk list" where
  "create_rag_chunks text pmid chunk_size overlap =
     (let words = str_split text
      in case py_range 0 (int (length words)) (chunk_size - overlap) of
           Inl e \<Rightarrow> Inl e
         | Inr indices \<Rightarrow> Inr (chunk_loop words pmid chunk_size indices []))"

text \<open>The chunks of a call that returned, and no chunks for a call that raised.\<close>

definition chunks_of :: "py_error + chunk list \<Rightarrow> chunk list" where
  "chunks_of r = (case r of Inl e \<Rightarrow> [] | Inr chunks \<Rightarrow> chunks)"

text \<open>Sample texts: \<open>n\<close> copies of the one-letter word \<open>a\<close>, and one word of \<open>n\<close> letters.\<close>

definition words_a :: "nat \<Rightarrow> ustr" where
  "words_a n = concat (replicate n [97, 32])"

definition long_word :: "nat \<Rightarrow> ustr" where
  "long_word n = replicate n 97"

text \<open>A word as \<open>split\<close> produces it: not empty, and without whitespace.\<close>

definition word_ok :: "ustr \<Rightarrow> bool" where
  "word_ok w = (w \<noteq> [] \<and> (\<forall>c \<in> set w. \<not> is_space c))"

section \<open>The pipeline: scraper records, enrichment, full-text download, workers\<close>

text \<open>
  Article dictionaries are association lists in insertion order.  The values that occur
  are \<open>None\<close>, strings, lists of strings, floats (as the rational they denote) and
  nested dictionaries.
\<close>

datatype pyval =
    PyNone
  | PyStr string
  | PyList "string list"
  | PyFloat rat
  | PyDict "(string \<times> pyval) list"

type_synonym pydict = "(string \<times> pyval) list"

text \<open>Truth value of a Python object in a condition.\<close>

fun truthy :: "pyval \<Rightarrow> bool" where
  "truthy PyNone = False"
| "truthy (PyStr s) = (s \<noteq> [])"
| "truthy (PyList xs) = (xs \<noteq> [])"
| "truthy (PyFloat r) = (r \<noteq> 0)"
| "truthy (PyDict d) = (d \<noteq> [])"

text \<open>\<open>d.get(k)\<close> used as a condition: a missing key gives \<open>None\<close>, which is false.\<close>

definition get_truthy :: "pydict \<Rightarrow> string \<Rightarrow> bool" where
  "get_truthy d k = (case map_of d k of None \<Rightarrow> False | Some v \<Rightarrow> truthy v)"

text \<open>\<open>d[k] = v\<close>: an existing key keeps its place, a new key goes to the end.\<close>

definition dict_set :: "pydict \<Rightarrow> string \<Rightarrow> pyval \<Rightarrow> pydict" where
  "dict_set d k v = AList.update k v d"

subsection \<open>pubmed\_scraper.py: the dictionary of a scraped record\<close>

text \<open>
  The local variables of \<open>_extract_article_data\<close> when it reaches its \<open>return\<close>:
  the \<open>.text\<close> of an XML element is a string or \<open>None\<close>, the lists hold strings.
\<close>

record extracted =
  pmid_text :: "string option"
  title_text :: "string option"
  abstract_text :: "string option"
  authors :: "string list"
  journal_text :: "string option"
  pub_date :: string
  doi_text :: "string option"
  keyword_texts :: "string list"
  mesh_term_texts :: "string list"
  scraped_at :: string

definition opt_str :: "string option \<Rightarrow> pyval" where
  "opt_str t = (case t of None \<Rightarrow> PyNone | Some s \<Rightarrow> PyStr s)"

definition format_opt :: "string option \<Rightarrow> string" where
  "format_opt t = (case t of None \<Rightarrow> ''None'' | Some s \<Rightarrow> s)"

definition extract_article_data :: "extracted \<Rightarrow> pydict" where
  "extract_article_data e =
     [(''pmid'', opt_str (pmid_text e)),
      (''title'', opt_str (title_text e)),
      (''abstract'', opt_str (abstract_text e)),
      (''authors'', PyList (authors e)),
      (''journal'', opt_str (journal_text e)),
      (''publication_date'', PyStr (pub_date e)),
      (''doi'', opt_str (doi_text e)),
      (''keywords'', PyList (keyword_texts e)),
      (''mesh_terms'', PyList (mesh_term_texts e)),
      (''url'', PyStr (''https://pubmed.ncbi.nlm.nih.gov/'' @ format_opt (pmid_text e) @ ''/'')),
      (''scraped_at'', PyStr (scraped_at e))]"

subsection \<open>data\_processor.py: enrichment and the relevance filter\<close>

text \<open>
  The scoring heuristics compute floating-point numbers and are not modelled; their
  results for an article are a parameter: \<open>None\<close> when one of them raised (the handler of
  \<open>_process_single_article\<close> then returns \<open>None\<close>).  \<open>relevance_score\<close> is the rational
  value of the computed double, and \<open>float_0_3\<close> the value of the double literal
  \<open>0.3\<close>.
\<close>

record enrichment =
  relevance_score :: rat
  formulation_relevance :: pyval
  cannabis_relevance :: pyval
  extracted_entities :: pyval
  key_phrases :: pyval
  processing_timestamp :: string

definition float_0_3 :: rat where
  "float_0_3 = 5404319552844595 / 18014398509481984"

text \<open>
  The scoring functions call \<open>.lower()\<close> on \<open>article.get('title', '')\<close> and on the
  abstract, and \<open>' '.join\<close> on the keywords and the MeSH terms.  On a value that has no
  such operation (\<open>None\<close> for a title, say) they raise, and the handler returns \<open>None\<close>.
\<close>

definition lowerable :: "pydict \<Rightarrow> string \<Rightarrow> bool" where
  "lowerable d k = (case map_of d k of None \<Rightarrow> True | Some (PyStr s) \<Rightarrow> True | Some v \<Rightarrow> False)"

definition joinable :: "pydict \<Rightarrow> string \<Rightarrow> bool" where
  "joinable d k =
     (case map_of d k of
        None \<Rightarrow> True
      | Some PyNone \<Rightarrow> False
      | Some (PyFloat r) \<Rightarrow> False
      | Some v \<Rightarrow> True)"

definition scorable :: "pydict \<Rightarrow> bool" where
  "scorable article =
     (lowerable article ''title'' \<and> lowerable article ''abstract'' \<and>
      joinable article ''keywords'' \<and> joinable article ''mesh_terms'')"

definition process_single_article :: "(pydict \<Rightarrow> enrichment option) \<Rightarrow> pydict \<Rightarrow> pydict option" where
  "process_single_article analyse article =
     (if \<not> scorable article then None
      else
        case analyse article of
          None \<Rightarrow> None
        | Some e \<Rightarrow>
            let processed = article;
                processed = dict_set processed ''relevance_score'' (PyFloat (relevance_score e));
                processed = dict_set processed ''formulation_relevance'' (formulation_relevance e);
                processed = dict_set processed ''cannabis_relevance'' (cannabis_relevance e);
                processed = dict_set processed ''extracted_entities'' (extracted_entities e);
                processed = dict_set processed ''key_phrases'' (key_phrases e);
                processed = dict_set processed ''processing_timestamp''
                              (PyStr (processing_timestamp e))
            in if relevance_score e < float_0_3 then None else Some processed)"

text \<open>
  \<open>process_articles\<close> keeps the articles whose processing gave a non-empty dictionary, in
  order; an article that was filtered out leaves no entry in the result.
\<close>

fun process_articles :: "(pydict \<Rightarrow> enrichment option) \<Rightarrow> pydict list \<Rightarrow> pydict list" where
  "process_articles analyse [] = []"
| "process_articles analyse (article # rest) =
     (case process_single_article analyse article of
        None \<Rightarrow> process_articles analyse rest
      | Some processed_article \<Rightarrow>
          if processed_article \<noteq> [] then processed_article # process_articles analyse rest
          else process_articles analyse rest)"

subsection \<open>fulltext\_downloader.py: trying the sources in order\<close>

text \<open>
  What a source adapter does when called: it raises, or returns a dictionary or
  \<open>None\<close>.  The environment of one \<open>download_full_text\<close> call is the result of
  \<open>_check_existing_download\<close> and the outcomes of the four adapters in their order of
  preference (pubmed\_central, arxiv, sci\_hub, direct\_pdf).
\<close>

datatype adapter_outcome = AdapterRaised | AdapterReturned "pydict option"

record download_env =
  existing_download :: "pydict option"
  adapter_outcomes :: "adapter_outcome list"

text \<open>The writes to durable storage, by kind and identifier.\<close>

datatype store_op =
    WriteAbstract string
  | WriteMetadata string
  | SaveDownload pydict
  | WriteFulltext string
  | WriteFulltextMetadata string
  | WriteRagChunks string
  | WriteSearchableText string
  | UpdateMetadata string

text \<open>The \<open>for\<close> loop over the sources: the first result with a non-empty \<open>full_text\<close>.\<close>

fun try_sources :: "adapter_outcome list \<Rightarrow> pydict option" where
  "try_sources [] = None"
| "try_sources (AdapterRaised # rest) = try_sources rest"
| "try_sources (AdapterReturned None # rest) = try_sources rest"
| "try_sources (AdapterReturned (Some result) # rest) =
     (if result \<noteq> [] \<and> get_truthy result ''full_text'' then Some result
      else try_sources rest)"

text \<open>
  \<open>download_full_text\<close> returns the dictionary of the source together with the writes of
  \<open>_save_full_text\<close>.  When every source fails it returns the article it was given.
\<close>

definition download_full_text :: "download_env \<Rightarrow> pydict \<Rightarrow> pydict \<times> store_op list" where
  "download_full_text denv article =
     (case existing_download denv of
        Some existing_text \<Rightarrow>
          if existing_text \<noteq> [] then (existing_text, [])
          else (case try_sources (adapter_outcomes denv) of
                  Some result \<Rightarrow> (result, [SaveDownload result])
                | None \<Rightarrow> (article, []))
      | None \<Rightarrow>
          (case try_sources (adapter_outcomes denv) of
             Some result \<Rightarrow> (result, [SaveDownload result])
           | None \<Rightarrow> (article, [])))"

text \<open>The fetch fails on all sources: nothing was downloaded before, and no adapter succeeds.\<close>

definition all_sources_fail :: "download_env \<Rightarrow> bool" where
  "all_sources_fail denv =
     (existing_download denv = None \<and> try_sources (adapter_outcomes denv) = None)"

subsection \<open>background\_processor.py: the shared queue and the workers\<close>

text \<open>
  A work item is the dictionary the workers put on the queue; its five keys are fixed.
  The state shared by the workers is the FIFO queue (\<open>get\<close> takes the head, \<open>put\<close>
  appends), the set of processed identifiers and the durable store, modelled as the log
  of its writes.  \<open>fulltext_pending\<close> is the item the full-text worker holds while it
  awaits \<open>download_full_text\<close>, the one place where a worker is suspended between its
  \<open>get\<close> and its \<open>put\<close>.
\<close>

record work_item =
  item_pmid :: string
  item_article :: pydict
  item_stage :: string
  item_category :: string
  item_search_term :: string

record pipeline =
  processing_queue :: "work_item list"
  processed_pmids :: "string set"
  store :: "store_op list"
  fulltext_pending :: "work_item option"

text \<open>
  A storing routine is a \<open>try\<close> block of writes: the writes before the first failing
  one happen, the handler logs the failure.  \<open>disk\<close> is the number of writes that
  succeed.
\<close>

definition store_metadata_and_abstract :: "nat \<Rightarrow> string \<Rightarrow> pydict \<Rightarrow> store_op list" where
  "store_metadata_and_abstract disk pmid article = take disk [WriteAbstract pmid, WriteMetadata pmid]"

definition store_article_fulltext :: "nat \<Rightarrow> string \<Rightarrow> pydict \<Rightarrow> store_op list" where
  "store_article_fulltext disk pmid fulltext_data =
     take disk [WriteFulltext pmid, WriteFulltextMetadata pmid]"

definition process_ocr_for_rag :: "bool \<Rightarrow> bool \<Rightarrow> nat \<Rightarrow> string \<Rightarrow> pydict \<Rightarrow> store_op list" where
  "process_ocr_for_rag pdf_exists metadata_exists disk pmid article =
     (if get_truthy article ''pdf_path'' \<and> pdf_exists
      then take disk ([WriteRagChunks pmid, WriteSearchableText pmid] @
                      (if metadata_exists then [UpdateMetadata pmid] else []))
      else [])"

text \<open>
  \<open>_search_worker\<close>, lines 149 to 158: one search result is put on the queue at stage
  \<open>metadata\<close> when it has an identifier that is not in the set.  The scraper sets
  \<open>pmid\<close> to a string or to \<open>None\<close>.
\<close>

definition put_if_new :: "string \<Rightarrow> string \<Rightarrow> pipeline \<Rightarrow> pydict \<Rightarrow> pipeline" where
  "put_if_new category term st article =
     (case map_of article ''pmid'' of
        Some (PyStr pmid) \<Rightarrow>
          if pmid \<noteq> [] \<and> pmid \<notin> processed_pmids st
          then st\<lparr>processing_queue := processing_queue st @
                 [\<lparr>item_pmid = pmid, item_article = article, item_stage = ''metadata'',
                   item_category = category, item_search_term = term\<rparr>]\<rparr>
          else st
      | _ \<Rightarrow> st)"

fun search_worker_put :: "string \<Rightarrow> string \<Rightarrow> pydict list \<Rightarrow> pipeline \<Rightarrow> pipeline" where
  "search_worker_put category term [] st = st"
| "search_worker_put category term (article # rest) st =
     search_worker_put category term rest (put_if_new category term st article)"

text \<open>
  One iteration of \<open>_processing_worker\<close>, together with the exception that reaches the
  handler of the loop, if any.  An empty queue is the timeout of \<open>get\<close>.  The worker
  does not look at the stage of the item.  \<open>process_articles([article])[0]\<close> raises
  \<open>IndexError\<close> on an empty result.
\<close>

definition processing_worker ::
    "(pydict \<Rightarrow> enrichment option) \<Rightarrow> nat \<Rightarrow> pipeline \<Rightarrow> pipeline \<times> py_error option" where
  "processing_worker analyse disk st =
     (case processing_queue st of
        [] \<Rightarrow> (st, None)
      | item # rest \<Rightarrow>
          let st1 = st\<lparr>processing_queue := rest\<rparr>;
              pmid = item_pmid item;
              article = item_article item
          in if pmid \<in> processed_pmids st1 then (st1, None)
             else (case process_articles analyse [article] of
                     [] \<Rightarrow> (st1, Some IndexError)
                   | processed_article # others \<Rightarrow>
                       let st2 =
                             (if processed_article \<noteq> [] then
                                st1\<lparr>store := store st1 @
                                       store_metadata_and_abstract disk pmid processed_article,
                                    processing_queue := processing_queue st1 @
                                       [\<lparr>item_pmid = pmid, item_article = processed_article,
                                         item_stage = ''fulltext'',
                                         item_category = item_category item,
                                         item_search_term = item_search_term item\<rparr>]\<rparr>
                              else st1)
                       in (st2\<lparr>processed_pmids := insert pmid (processed_pmids st2)\<rparr>, None)))"

text \<open>
  \<open>_fulltext_worker\<close>: the part up to the download (an item of another stage is put
  back at the tail), and the part after it.
\<close>

definition fulltext_worker_get :: "pipeline \<Rightarrow> pipeline" where
  "fulltext_worker_get st =
     (case processing_queue st of
        [] \<Rightarrow> st
      | item # rest \<Rightarrow>
          if item_stage item \<noteq> ''fulltext''
          then st\<lparr>processing_queue := rest @ [item]\<rparr>
          else st\<lparr>processing_queue := rest, fulltext_pending := Some item\<rparr>)"

definition fulltext_worker_finish :: "download_env \<Rightarrow> nat \<Rightarrow> pipeline \<Rightarrow> pipeline" where
  "fulltext_worker_finish denv disk st =
     (case fulltext_pending st of
        None \<Rightarrow> st
      | Some item \<Rightarrow>
          let pmid = item_pmid item;
              article = item_article item;
              fulltext_data = fst (download_full_text denv article);
              st1 = st\<lparr>fulltext_pending := None,
                       store := store st @ snd (download_full_text denv article)\<rparr>
          in if fulltext_data \<noteq> [] \<and> get_truthy fulltext_data ''full_text''
             then st1\<lparr>store := store st1 @ store_article_fulltext disk pmid fulltext_data,
                      processing_queue := processing_queue st1 @
                        [\<lparr>item_pmid = pmid, item_article = fulltext_data, item_stage = ''ocr'',
                          item_category = item_category item,
                          item_search_term = item_search_term item\<rparr>]\<rparr>
             else st1)"

text \<open>One iteration of \<open>_ocr_worker\<close>.\<close>

definition ocr_worker :: "bool \<Rightarrow> bool \<Rightarrow> nat \<Rightarrow> pipeline \<Rightarrow> pipeline" where
  "ocr_worker pdf_exists metadata_exists disk st =
     (case processing_queue st of
        [] \<Rightarrow> st
      | item # rest \<Rightarrow>
          if item_stage item \<noteq> ''ocr''
          then st\<lparr>processing_queue := rest @ [item]\<rparr>
          else st\<lparr>processing_queue := rest,
                  store := store st @
                    process_ocr_for_rag pdf_exists metadata_exists disk (item_pmid item)
                      (item_article item)\<rparr>)"

text \<open>
  The runs of the pipeline.  It starts with an empty queue and the identifiers loaded
  from the index file; then the workers take turns, each turn (\<open>worker_step\<close>) being a
  piece of code between two suspension points.  The search worker puts the records of
  one search result, built by the scraper.  \<open>runs_to st st'\<close>: the pipeline can get
  from \<open>st\<close> to \<open>st'\<close> in some number of turns.
\<close>

definition initial :: "string set \<Rightarrow> pipeline" where
  "initial index = \<lparr>processing_queue = [], processed_pmids = index, store = [],
                    fulltext_pending = None\<rparr>"

inductive worker_step :: "pipeline \<Rightarrow> pipeline \<Rightarrow> bool" where
  search:
    "worker_step st (search_worker_put category term (map extract_article_data results) st)"
| processing:
    "worker_step st (fst (processing_worker analyse disk st))"
| fulltext_get:
    "fulltext_pending st = None \<Longrightarrow> worker_step st (fulltext_worker_get st)"
| fulltext_finish:
    "worker_step st (fulltext_worker_finish denv disk st)"
| ocr:
    "worker_step st (ocr_worker pdf_exists metadata_exists disk st)"

inductive runs_to :: "pipeline \<Rightarrow> pipeline \<Rightarrow> bool" where
  here: "runs_to st st"
| later: "runs_to st st' \<Longrightarrow> worker_step st' st'' \<Longrightarrow> runs_to st st''"

definition reachable :: "string set \<Rightarrow> pipeline \<Rightarrow> bool" where
  "reachable index st = runs_to (initial index) st"

text \<open>
  The identifier of a search result, when it has one: the value of \<open>pmid\<close> when that is
  a non-empty string.  \<open>new_item\<close> is the work item the search worker builds for a
  result whose identifier is not in the given set.
\<close>

definition article_pmid :: "pydict \<Rightarrow> string option" where
  "article_pmid article =
     (case map_of article ''pmid'' of
        Some (PyStr p) \<Rightarrow> if p \<noteq> [] then Some p else None
      | _ \<Rightarrow> None)"

definition new_item :: "string set \<Rightarrow> string \<Rightarrow> string \<Rightarrow> pydict \<Rightarrow> work_item option" where
  "new_item processed category term article =
     (case article_pmid article of
        None \<Rightarrow> None
      | Some p \<Rightarrow>
          if p \<in> processed then None
          else Some \<lparr>item_pmid = p, item_article = article, item_stage = ''metadata'',
                     item_category = category, item_search_term = term\<rparr>)"

text \<open>
  What holds of every item on the queue of a run: an item at stage \<open>metadata\<close> or
  \<open>fulltext\<close> carries an article without the key \<open>full_text\<close>, and the identifier
  of an item beyond stage \<open>metadata\<close> is in the set of processed identifiers.
\<close>

definition item_ok :: "string set \<Rightarrow> work_item \<Rightarrow> bool" where
  "item_ok processed item =
     (if item_stage item = ''metadata'' then map_of (item_article item) ''full_text'' = None
      else if item_stage item = ''fulltext''
        then item_pmid item \<in> processed \<and> map_of (item_article item) ''full_text'' = None
      else item_stage item = ''ocr'' \<and> item_pmid item \<in> processed)"

definition pipeline_inv :: "pipeline \<Rightarrow> bool" where
  "pipeline_inv st =
     (list_all (item_ok (processed_pmids st)) (processing_queue st) \<and>
      (\<forall>item. fulltext_pending st = Some item \<longrightarrow>
         item_stage item = ''fulltext'' \<and> item_ok (processed_pmids st) item))"

text \<open>
  The items of an identifier that are beyond the metadata stage: those on the queue
  whose stage is not \<open>metadata\<close>, and the item held by the full-text worker.  In a run
  there is at most one per identifier, and none for an identifier outside the set.
\<close>

definition later_items :: "string \<Rightarrow> pipeline \<Rightarrow> nat" where
  "later_items p st =
     length (filter (\<lambda>item. item_pmid item = p \<and> item_stage item \<noteq> ''metadata'')
               (processing_queue st)) +
     (case fulltext_pending st of
        None \<Rightarrow> 0
      | Some item \<Rightarrow> if item_pmid item = p then 1 else 0)"

definition single_inv :: "pipeline \<Rightarrow> bool" where
  "single_inv st =
     (\<forall>p. later_items p st \<le> 1 \<and> (p \<notin> processed_pmids st \<longrightarrow> later_items p st = 0))"

text \<open>Sample data: scraped records, an analysis with a fixed score, and small states.\<close>

definition sample_record :: "string option \<Rightarrow> extracted" where
  "sample_record p =
     \<lparr>pmid_text = p, title_text = Some ''Terpene stability'',
      abstract_text = Some ''Terpene stability'',
      authors = [], journal_text = None, pub_date = ''N/A'', doi_text = None,
      keyword_texts = [], mesh_term_texts = [], scraped_at = ''2024-01-01T00:00:00''\<rparr>"

definition offtopic_record :: "string option \<Rightarrow> extracted" where
  "offtopic_record p =
     \<lparr>pmid_text = p, title_text = Some ''Protein folding'',
      abstract_text = Some ''Protein folding'',
      authors = [], journal_text = None, pub_date = ''N/A'', doi_text = None,
      keyword_texts = [], mesh_term_texts = [], scraped_at = ''2024-01-01T00:00:00''\<rparr>"

definition analyse_score :: "rat \<Rightarrow> pydict \<Rightarrow> enrichment option" where
  "analyse_score r article =
     Some \<lparr>relevance_score = r, formulation_relevance = PyDict [],
           cannabis_relevance = PyDict [], extracted_entities = PyDict [],
           key_phrases = PyList [], processing_timestamp = ''2024-01-01T00:00:00''\<rparr>"

text \<open>
  The heuristics score the sample record 0.8 (both words of its title and of its
  abstract are search terms) and the off-topic record 0.0; \<open>float_0_8\<close> is the value of
  the double \<open>0.8\<close>.
\<close>

definition float_0_8 :: rat where
  "float_0_8 = 3602879701896397 / 4503599627370496"

definition sample_item :: "string \<Rightarrow> string \<Rightarrow> work_item" where
  "sample_item p stage_tag =
     \<lparr>item_pmid = p, item_article = extract_article_data (sample_record (Some p)),
      item_stage = stage_tag, item_category = ''extraction'', item_search_term = ''terpene''\<rparr>"

definition offtopic_item :: "string \<Rightarrow> string \<Rightarrow> work_item" where
  "offtopic_item p stage_tag =
     \<lparr>item_pmid = p, item_article = extract_article_data (offtopic_record (Some p)),
      item_stage = stage_tag, item_category = ''extraction'', item_search_term = ''terpene''\<rparr>"

definition failing_download :: download_env where
  "failing_download =
     \<lparr>existing_download = None,
      adapter_outcomes = [AdapterReturned None, AdapterRaised, AdapterReturned None,
                          AdapterReturned (Some [(''full_text'', PyStr [])])]\<rparr>"

text \<open>
  What the enrichment makes of the sample record, and the item the processing worker
  forwards for it.
\<close>

definition enriched_sample_article :: pydict where
  "enriched_sample_article =
     extract_article_data (sample_record (Some ''333'')) @
     [(''relevance_score'', PyFloat float_0_8),
      (''formulation_relevance'', PyDict []),
      (''cannabis_relevance'', PyDict []),
      (''extracted_entities'', PyDict []),
      (''key_phrases'', PyList []),
      (''processing_timestamp'', PyStr ''2024-01-01T00:00:00'')]"

definition forwarded_item :: work_item where
  "forwarded_item =
     \<lparr>item_pmid = ''333'', item_article = enriched_sample_article, item_stage = ''fulltext'',
      item_category = ''extraction'', item_search_term = ''terpene''\<rparr>"

text \<open>
  A short run: the search worker finds record 333 and the processing worker enriches
  it.  In another run the search worker finds the off-topic record 333.
\<close>

definition sample_found :: pipeline where
  "sample_found =
     search_worker_put ''extraction'' ''terpene''
       (map extract_article_data [sample_record (Some ''333'')]) (initial {})"

definition sample_enriched :: pipeline where
  "sample_enriched = fst (processing_worker (analyse_score float_0_8) 2 sample_found)"

definition offtopic_found :: pipeline where
  "offtopic_found =
     search_worker_put ''extraction'' ''terpene''
       (map extract_article_data [offtopic_record (Some ''333'')]) (initial {})"

text \<open>
  A longer run: one search result lists record 333 twice, so two items at stage
  \<open>metadata\<close> are queued; the processing worker enriches the first; the full-text
  worker puts the second back, then takes the forwarded item; the fetch fails on all
  sources; later the OCR worker puts the remaining item back.
\<close>

definition twice_found :: pipeline where
  "twice_found =
     search_worker_put ''extraction'' ''terpene''
       (map extract_article_data [sample_record (Some ''333''), sample_record (Some ''333'')])
       (initial {})"

definition twice_enriched :: pipeline where
  "twice_enriched = fst (processing_worker (analyse_score float_0_8) 2 twice_found)"

definition twice_requeued :: pipeline where
  "twice_requeued = fulltext_worker_get twice_enriched"

definition twice_taken :: pipeline where
  "twice_taken = fulltext_worker_get twice_requeued"

definition twice_failed :: pipeline where
  "twice_failed = fulltext_worker_finish failing_download 2 twice_taken"

definition twice_later :: pipeline where
  "twice_later = ocr_worker False False 2 twice_failed"

section \<open>Properties of the Checkpoint Coordinator\<close>

lemma should_commit_unknown:
  "map_of (commit_conditions count) stage = None \<Longrightarrow> should_commit stage count False = False"
  by (simp add: should_commit_def)

lemma commit_conditions_keys:
  "(map_of (commit_conditions count) stage = None) =
     (stage \<notin> {''metadata'', ''abstract'', ''fulltext'', ''ocr'', ''batch_complete'',
                ''status_update''})"
  by (simp add: commit_conditions_def)

text \<open>
  C10.  For a stage name outside the commit cadence table (for example
  \<open>rss_update\<close>; this covers every name outside both tables), a call with
  \<open>force_push = False\<close> runs no git command, leaves the object unchanged and returns
  \<open>False\<close>, whatever the count; for such a stage git commands are run exactly when
  \<open>force_push\<close> is set.
\<close>

theorem unknown_stage_needs_force:
  "stage \<notin> {''metadata'', ''abstract'', ''fulltext'', ''ocr'', ''batch_complete'',
              ''status_update''} \<Longrightarrow>
   commit_and_push_if_needed env gm stage count False = (False, gm, []) \<and>
   (git_trace (commit_and_push_if_needed env gm stage count force) \<noteq> [] \<longleftrightarrow> force)"
proof -
  assume out: "stage \<notin> {''metadata'', ''abstract'', ''fulltext'', ''ocr'', ''batch_complete'',
              ''status_update''}"
  then have none: "map_of (commit_conditions count) stage = None"
    by (simp add: commit_conditions_keys)
  have no_force: "commit_and_push_if_needed env gm stage count False = (False, gm, [])"
    using should_commit_unknown [OF none] by (simp add: commit_and_push_if_needed_def)
  have forced: "git_trace (commit_and_push_if_needed env gm stage count True) \<noteq> []"
    by (simp add: commit_and_push_if_needed_def should_commit_def git_trace_def Let_def)
  show ?thesis
  proof (cases force)
    case True
    with no_force forced show ?thesis by simp
  next
    case False
    with no_force show ?thesis by (simp add: git_trace_def)
  qed
qed

theorem unknown_stage_needs_force_witness:
  "commit_and_push_if_needed env_ok gm_init ''rss_update'' 7 False = (False, gm_init, []) \<and>
   git_trace (commit_and_push_if_needed env_ok gm_init ''rss_update'' 7 True) \<noteq> []"
  using unknown_stage_needs_force [of "''rss_update''" env_ok gm_init 7 True]
  by simp

lemma trace_cases:
  "git_trace (commit_and_push_if_needed env gm stage count force) = [] \<or>
   git_trace (commit_and_push_if_needed env gm stage count force) =
     [GitAdd, GitCommit (create_commit_message env stage count)] \<or>
   git_trace (commit_and_push_if_needed env gm stage count force) =
     [GitAdd, GitCommit (create_commit_message env stage count), GitPush]"
  by (simp add: commit_and_push_if_needed_def git_trace_def Let_def)

lemma push_only_after_commit:
  "GitPush \<in> set (git_trace (commit_and_push_if_needed env gm stage count force)) \<Longrightarrow>
   commit_changes env \<and>
   git_trace (commit_and_push_if_needed env gm stage count force) =
     [GitAdd, GitCommit (create_commit_message env stage count), GitPush]"
  by (simp add: commit_and_push_if_needed_def git_trace_def Let_def split: if_splits)

lemma commit_failure_aborts:
  "\<not> commit_changes env \<Longrightarrow>
   GitPush \<notin> set (git_trace (commit_and_push_if_needed env gm stage count force)) \<and>
   \<not> returned (commit_and_push_if_needed env gm stage count force) \<and>
   manager_after (commit_and_push_if_needed env gm stage count force) = gm"
  by (simp add: commit_and_push_if_needed_def git_trace_def returned_def manager_after_def Let_def)

lemma push_failure_keeps_commit:
  "should_commit stage count force \<Longrightarrow> commit_changes env \<Longrightarrow> \<not> push_changes env \<Longrightarrow>
   commit_count (manager_after (commit_and_push_if_needed env gm stage count force)) =
     commit_count gm + 1 \<and>
   last_push_time (manager_after (commit_and_push_if_needed env gm stage count force)) =
     last_push_time gm \<and>
   GitCommit (create_commit_message env stage count)
     \<in> set (git_trace (commit_and_push_if_needed env gm stage count force))"
  by (simp add: commit_and_push_if_needed_def git_trace_def manager_after_def Let_def)

lemma push_proc_irrelevant:
  "commit_changes (env\<lparr>push_proc := p\<rparr>) = commit_changes env"
  "stage_changes (env\<lparr>push_proc := p\<rparr>) = stage_changes env"
  "create_commit_message (env\<lparr>push_proc := p\<rparr>) stage count = create_commit_message env stage count"
  "is_hourly_push_needed (env\<lparr>push_proc := p\<rparr>) gm = is_hourly_push_needed env gm"
  by (simp_all add: commit_changes_def stage_changes_def create_commit_message_def
      commit_messages_def is_hourly_push_needed_def split: option.split)

lemma should_push_ignores_push_result:
  "should_push (env\<lparr>push_proc := p\<rparr>) gm stage count force = should_push env gm stage count force"
  by (simp add: should_push_def push_conditions_def push_proc_irrelevant)

lemma push_result_irrelevant_for_commit:
  "commit_count (manager_after
      (commit_and_push_if_needed (env\<lparr>push_proc := p\<rparr>) gm stage count force)) =
   commit_count (manager_after (commit_and_push_if_needed env gm stage count force)) \<and>
   git_trace (commit_and_push_if_needed (env\<lparr>push_proc := p\<rparr>) gm stage count force) =
   git_trace (commit_and_push_if_needed env gm stage count force)"
  by (simp add: commit_and_push_if_needed_def git_trace_def manager_after_def Let_def
      push_proc_irrelevant should_push_ignores_push_result)

text \<open>
  C9.  In every call of \<open>commit_and_push_if_needed\<close>: when \<open>git push\<close> is run, the
  commands run are exactly add, commit, push in this order and the commit succeeded;
  when the commit step fails, push is not run, the call returns \<open>False\<close> and the object
  is unchanged; when the commit succeeds and the push step fails, the commit stays
  (it is in the trace, nothing undoes it), \<open>commit_count\<close> has been incremented and
  \<open>last_push_time\<close> is untouched; the commit count and the commands run do not depend
  on the outcome of the push at all.
\<close>

theorem commit_then_push:
  "(GitPush \<in> set (git_trace (commit_and_push_if_needed env gm stage count force)) \<longrightarrow>
      commit_changes env \<and>
      git_trace (commit_and_push_if_needed env gm stage count force) =
        [GitAdd, GitCommit (create_commit_message env stage count), GitPush]) \<and>
   (\<not> commit_changes env \<longrightarrow>
      GitPush \<notin> set (git_trace (commit_and_push_if_needed env gm stage count force)) \<and>
      \<not> returned (commit_and_push_if_needed env gm stage count force) \<and>
      manager_after (commit_and_push_if_needed env gm stage count force) = gm) \<and>
   (should_commit stage count force \<and> commit_changes env \<and> \<not> push_changes env \<longrightarrow>
      commit_count (manager_after (commit_and_push_if_needed env gm stage count force)) =
        commit_count gm + 1 \<and>
      last_push_time (manager_after (commit_and_push_if_needed env gm stage count force)) =
        last_push_time gm \<and>
      GitCommit (create_commit_message env stage count)
        \<in> set (git_trace (commit_and_push_if_needed env gm stage count force))) \<and>
   commit_count (manager_after
      (commit_and_push_if_needed (env\<lparr>push_proc := p\<rparr>) gm stage count force)) =
     commit_count (manager_after (commit_and_push_if_needed env gm stage count force)) \<and>
   git_trace (commit_and_push_if_needed (env\<lparr>push_proc := p\<rparr>) gm stage count force) =
     git_trace (commit_and_push_if_needed env gm stage count force)"
  using push_only_after_commit [of env gm stage count force]
    commit_failure_aborts [of env gm stage count force]
    push_failure_keeps_commit [of stage count force env gm]
    push_result_irrelevant_for_commit [of p env gm stage count force]
  by blast

theorem commit_then_push_witness:
  "GitPush \<in> set (git_trace
      (commit_and_push_if_needed env_push_fails gm_init ''batch_complete'' 1 False)) \<and>
   git_trace (commit_and_push_if_needed env_push_fails gm_init ''batch_complete'' 1 False) =
     [GitAdd, GitCommit ''Complete batch processing - 1 total articles - 2024-01-01 00:00:00'',
      GitPush] \<and>
   should_commit ''batch_complete'' 1 False \<and> commit_changes env_push_fails \<and>
   \<not> push_changes env_push_fails \<and>
   manager_after (commit_and_push_if_needed env_push_fails gm_init ''batch_complete'' 1 False) =
     \<lparr>commit_count = 1, last_push_time = None\<rparr> \<and>
   \<not> commit_changes env_commit_fails \<and>
   commit_and_push_if_needed env_commit_fails gm_init ''batch_complete'' 1 False =
     (False, gm_init,
      [GitAdd, GitCommit ''Complete batch processing - 1 total articles - 2024-01-01 00:00:00''])"
  using commit_then_push [of env_push_fails gm_init "''batch_complete''" 1 False "Completed 0 [] []"]
    commit_then_push [of env_commit_fails gm_init "''batch_complete''" 1 False "Completed 0 [] []"]
  by (simp add: commit_and_push_if_needed_def should_commit_def should_push_def
      commit_conditions_def push_conditions_def commit_changes_def push_changes_def
      stage_changes_def create_commit_message_def commit_messages_def git_trace_def
      manager_after_def returned_def env_push_fails_def env_commit_fails_def env_ok_def
      gm_init_def str_int_def str_nat.simps digit_char_def Let_def)




section \<open>Properties of the chunker\<close>

lemma split_from_words:
  "(\<And>c. c \<in> set cur \<Longrightarrow> \<not> is_space c) \<Longrightarrow> w \<in> set (split_from cur s) \<Longrightarrow> word_ok w"
proof (induction s arbitrary: cur)
  case Nil
  then show ?case by (auto simp: word_ok_def split: if_splits)
next
  case (Cons c cs)
  show ?case
  proof (cases "is_space c")
    case True
    with Cons.prems(2) have "w = cur \<and> cur \<noteq> [] \<or> w \<in> set (split_from [] cs)"
      by (auto split: if_splits)
    then show ?thesis
    proof
      assume "w = cur \<and> cur \<noteq> []"
      with Cons.prems(1) show ?thesis by (simp add: word_ok_def)
    next
      assume "w \<in> set (split_from [] cs)"
      then show ?thesis by (rule Cons.IH [rotated]) simp
    qed
  next
    case False
    with Cons.prems(2) have "w \<in> set (split_from (cur @ [c]) cs)" by simp
    moreover have "\<And>d. d \<in> set (cur @ [c]) \<Longrightarrow> \<not> is_space d"
      using False Cons.prems(1) by auto
    ultimately show ?thesis by (rule Cons.IH [rotated])
  qed
qed

lemma str_split_words:
  assumes "w \<in> set (str_split s)"
  shows "word_ok w"
proof -
  from assms have "w \<in> set (split_from [] s)" by (simp add: str_split_def)
  moreover have "\<And>c. c \<in> set [] \<Longrightarrow> \<not> is_space c" by simp
  ultimately show ?thesis by (rule split_from_words [rotated])
qed

lemma str_strip_id:
  assumes "s = [] \<or> (\<not> is_space (hd s) \<and> \<not> is_space (last s))"
  shows "str_strip s = s"
proof (cases "s = []")
  case True
  then show ?thesis by (simp add: str_strip_def)
next
  case False
  with assms have h: "\<not> is_space (hd s)" and l: "\<not> is_space (last s)" by auto
  from False h have d: "dropWhile is_space s = s" by (cases s) auto
  from False have "rev s \<noteq> []" by simp
  moreover from l have "\<not> is_space (hd (rev s))" by (simp add: hd_rev)
  ultimately have "dropWhile is_space (rev s) = rev s" by (cases "rev s") auto
  with d show ?thesis by (simp add: str_strip_def)
qed

lemma join_nonempty:
  "ws \<noteq> [] \<Longrightarrow> (\<And>w. w \<in> set ws \<Longrightarrow> w \<noteq> []) \<Longrightarrow>
   str_join sep ws \<noteq> [] \<and> hd (str_join sep ws) = hd (hd ws) \<and>
   last (str_join sep ws) = last (last ws)"
proof (induction sep ws rule: str_join.induct)
  case (1 sep)
  then show ?case by simp
next
  case (2 sep w)
  then show ?case by simp
next
  case (3 sep w v ws)
  have "w \<noteq> []" by (rule 3(3)) simp
  moreover have "str_join sep (v # ws) \<noteq> [] \<and> hd (str_join sep (v # ws)) = hd (hd (v # ws)) \<and>
   last (str_join sep (v # ws)) = last (last (v # ws))"
    by (rule 3(1)) (simp_all add: 3(3))
  ultimately show ?case by simp
qed

lemma strip_join:
  assumes "\<And>w. w \<in> set ws \<Longrightarrow> word_ok w"
  shows "str_strip (str_join [32] ws) = str_join [32] ws"
proof (cases "ws = []")
  case True
  then show ?thesis by (simp add: str_strip_def)
next
  case False
  have ne: "\<And>w. w \<in> set ws \<Longrightarrow> w \<noteq> []" using assms by (simp add: word_ok_def)
  from False assms have "word_ok (hd ws)" "word_ok (last ws)" by simp_all
  then have "\<not> is_space (hd (hd ws))" "\<not> is_space (last (last ws))"
    by (simp_all add: word_ok_def)
  with join_nonempty [OF False ne, of "[32]"] show ?thesis by (intro str_strip_id) simp
qed

lemma length_join:
  "length (str_join sep ws) = sum_list (map length ws) + (length ws - 1) * length sep"
  by (induction sep ws rule: str_join.induct) simp_all

lemma sum_length_words:
  "(\<And>w. w \<in> set ws \<Longrightarrow> word_ok w) \<Longrightarrow> length ws \<le> sum_list (map length ws)"
proof (induction ws)
  case Nil
  then show ?case by simp
next
  case (Cons w ws)
  have "word_ok w" by (rule Cons.prems) simp
  then have "1 \<le> length w" by (cases w) (simp_all add: word_ok_def)
  moreover have "length ws \<le> sum_list (map length ws)" by (rule Cons.IH) (simp add: Cons.prems)
  ultimately show ?case by simp
qed

lemma many_words_long:
  assumes "\<And>w. w \<in> set ws \<Longrightarrow> word_ok w" and "26 \<le> length ws"
  shows "50 < length (str_strip (str_join [32] ws))"
proof -
  have "length ws \<le> sum_list (map length ws)" by (rule sum_length_words) (rule assms(1))
  moreover have "str_strip (str_join [32] ws) = str_join [32] ws"
    by (rule strip_join) (rule assms(1))
  ultimately show ?thesis using assms(2) by (simp add: length_join)
qed

lemma range_up_nth:
  "k < length (range_up i n s) \<Longrightarrow> range_up i n s ! k = i + s * int k"
proof (induction i n s arbitrary: k rule: range_up.induct)
  case (1 i stop step)
  show ?case
  proof (cases "0 < step \<and> i < stop")
    case True
    then have unfold: "range_up i stop step = i # range_up (i + step) stop step"
      by (simp add: range_up.simps [of i])
    show ?thesis
    proof (cases k)
      case 0
      with unfold show ?thesis by simp
    next
      case (Suc j)
      with "1.prems" unfold have "j < length (range_up (i + step) stop step)" by simp
      with True have "range_up (i + step) stop step ! j = i + step + step * int j"
        by (intro "1.IH") simp_all
      with Suc unfold show ?thesis by (simp add: algebra_simps)
    qed
  next
    case False
    then have "range_up i stop step = []" by (simp add: range_up.simps [of i])
    with "1.prems" show ?thesis by simp
  qed
qed

lemma range_up_bounds:
  "x \<in> set (range_up i n s) \<Longrightarrow> i \<le> x \<and> x < n \<and> 0 < s"
proof (induction i n s rule: range_up.induct)
  case (1 i stop step)
  show ?case
  proof (cases "0 < step \<and> i < stop")
    case True
    then have unfold: "range_up i stop step = i # range_up (i + step) stop step"
      by (simp add: range_up.simps [of i])
    with "1.prems" have "x = i \<or> x \<in> set (range_up (i + step) stop step)" by simp
    then show ?thesis
    proof
      assume "x = i" with True show ?thesis by simp
    next
      assume "x \<in> set (range_up (i + step) stop step)"
      with True have "i + step \<le> x \<and> x < stop \<and> 0 < step" by (intro "1.IH") simp_all
      then show ?thesis by simp
    qed
  next
    case False
    then have "range_up i stop step = []" by (simp add: range_up.simps [of i])
    with "1.prems" show ?thesis by simp
  qed
qed

lemma range_up_nth_less:
  assumes "k < length (range_up i n s)"
  shows "i + s * int k < n"
proof -
  from assms have "range_up i n s ! k \<in> set (range_up i n s)" by simp
  then have "range_up i n s ! k < n" by (simp add: range_up_bounds)
  with range_up_nth [OF assms] show ?thesis by simp
qed

lemma range_down_empty: "stop \<ge> i \<Longrightarrow> range_down i stop step = []"
  by (simp add: range_down.simps [of i])

lemma py_slice_subset: "set (py_slice xs lo hi) \<subseteq> set xs"
proof -
  have "set (take m (drop k xs)) \<subseteq> set xs" for m k
    using set_take_subset [of m "drop k xs"] set_drop_subset [of k xs] by blast
  then show ?thesis by (simp add: py_slice_def Let_def)
qed

lemma window_length:
  assumes "0 \<le> i" and "i \<le> int (length words)" and "0 \<le> cs"
  shows "int (length (window_words words cs i)) = min (i + cs) (int (length words)) - i"
  using assms
  by (simp add: window_words_def py_slice_def slice_index_def Let_def; arith)

lemma window_words_ok:
  assumes "w \<in> set (window_words (str_split text) cs i)"
  shows "word_ok w"
proof -
  from assms py_slice_subset [of "str_split text" i "i + cs"]
  have "w \<in> set (str_split text)"
    unfolding window_words_def by blast
  then show ?thesis by (rule str_split_words)
qed

lemma chunk_loop_starts:
  "map start_word (chunk_loop words pmid cs indices acc) =
     map start_word acc @
     filter (\<lambda>i. 50 < length (str_strip (window_text words cs i))) indices"
  by (induction indices arbitrary: acc) (simp_all add: chunk_body_def Let_def)

lemma chunk_loop_fields:
  assumes "\<And>c. c \<in> set acc \<Longrightarrow>
             chunk_pmid c = pmid \<and>
             chunk_text c = window_text words cs (start_word c) \<and>
             end_word c = min (start_word c + cs) (int (length words)) \<and>
             word_count c = int (length (window_words words cs (start_word c))) \<and>
             50 < length (str_strip (chunk_text c))"
    and "c \<in> set (chunk_loop words pmid cs indices acc)"
  shows "chunk_pmid c = pmid \<and>
         chunk_text c = window_text words cs (start_word c) \<and>
         end_word c = min (start_word c + cs) (int (length words)) \<and>
         word_count c = int (length (window_words words cs (start_word c))) \<and>
         50 < length (str_strip (chunk_text c))"
  using assms
proof (induction indices arbitrary: acc)
  case Nil
  from Nil.prems(2) have "c \<in> set acc" by simp
  then show ?case by (rule Nil.prems(1))
next
  case (Cons i rest)
  from Cons.prems(2)
  have mem: "c \<in> set (chunk_loop words pmid cs rest (chunk_body words pmid cs acc i))" by simp
  show ?case
  proof (rule Cons.IH [OF _ mem])
    fix d
    assume "d \<in> set (chunk_body words pmid cs acc i)"
    then have "d \<in> set acc \<or>
       (50 < length (str_strip (window_text words cs i)) \<and>
        d = \<lparr>chunk_pmid = pmid, chunk_id = pmid @ ''_'' @ str_nat (length acc),
             chunk_text = window_text words cs i, start_word = i,
             end_word = min (i + cs) (int (length words)),
             word_count = int (length (window_words words cs i))\<rparr>)"
      by (auto simp: chunk_body_def Let_def split: if_splits)
    then show "chunk_pmid d = pmid \<and>
         chunk_text d = window_text words cs (start_word d) \<and>
         end_word d = min (start_word d + cs) (int (length words)) \<and>
         word_count d = int (length (window_words words cs (start_word d))) \<and>
         50 < length (str_strip (chunk_text d))"
    proof
      assume "d \<in> set acc" then show ?thesis by (rule Cons.prems(1))
    next
      assume "50 < length (str_strip (window_text words cs i)) \<and>
        d = \<lparr>chunk_pmid = pmid, chunk_id = pmid @ ''_'' @ str_nat (length acc),
             chunk_text = window_text words cs i, start_word = i,
             end_word = min (i + cs) (int (length words)),
             word_count = int (length (window_words words cs i))\<rparr>"
      then show ?thesis by simp
    qed
  qed
qed

lemma filter_all_but_last:
  assumes "\<And>x. x \<in> set (butlast xs) \<Longrightarrow> P x"
  shows "filter P xs = xs \<or> filter P xs = butlast xs"
proof (cases xs rule: rev_cases)
  case Nil
  then show ?thesis by simp
next
  case (snoc ys y)
  with assms have "\<And>x. x \<in> set ys \<Longrightarrow> P x" by simp
  then have "filter P ys = ys" by (simp add: filter_id_conv)
  with snoc show ?thesis by simp
qed

lemma create_rag_chunks_positive_stride:
  "0 < chunk_size - overlap \<Longrightarrow>
   create_rag_chunks text pmid chunk_size overlap =
     Inr (chunk_loop (str_split text) pmid chunk_size
            (range_up 0 (int (length (str_split text))) (chunk_size - overlap)) [])"
  by (simp add: create_rag_chunks_def py_range_def Let_def)

lemma default_windows_kept:
  assumes "x \<in> set (butlast (range_up 0 (int (length (str_split text))) 800))"
  shows "50 < length (str_strip (window_text (str_split text) 1000 x))"
proof -
  let ?words = "str_split text"
  let ?starts = "range_up 0 (int (length ?words)) 800"
  from assms obtain j where j: "j < length (butlast ?starts)" and x: "x = butlast ?starts ! j"
    by (auto simp: in_set_conv_nth)
  from j have sj: "Suc j < length ?starts" by simp
  then have jl: "j < length ?starts" by simp
  from x j have "x = ?starts ! j" by (simp add: nth_butlast)
  with range_up_nth [OF jl] have xv: "x = 800 * int j" by simp
  from range_up_nth_less [OF sj] have next_in: "800 * int (Suc j) < int (length ?words)" by simp
  with xv have "int (length (window_words ?words 1000 x)) = min (x + 1000) (int (length ?words)) - x"
    by (intro window_length) simp_all
  with xv next_in have "26 \<le> length (window_words ?words 1000 x)" by (simp add: min_def split: if_splits)
  moreover have "\<And>w. w \<in> set (window_words ?words 1000 x) \<Longrightarrow> word_ok w"
    by (rule window_words_ok)
  ultimately show ?thesis unfolding window_text_def by (intro many_words_long)
qed

lemma default_chunk_layout:
  assumes "j < length (chunks_of (create_rag_chunks text pmid 1000 200))"
  shows "start_word (chunks_of (create_rag_chunks text pmid 1000 200) ! j) = 800 * int j \<and>
         800 * int j < int (length (str_split text)) \<and>
         end_word (chunks_of (create_rag_chunks text pmid 1000 200) ! j) =
           min (800 * int j + 1000) (int (length (str_split text))) \<and>
         word_count (chunks_of (create_rag_chunks text pmid 1000 200) ! j) =
           min (800 * int j + 1000) (int (length (str_split text))) - 800 * int j"
proof -
  let ?words = "str_split text"
  let ?n = "int (length ?words)"
  let ?starts = "range_up 0 ?n 800"
  let ?keep = "\<lambda>i. 50 < length (str_strip (window_text ?words 1000 i))"
  let ?chunks = "chunk_loop ?words pmid 1000 ?starts []"
  have eq: "chunks_of (create_rag_chunks text pmid 1000 200) = ?chunks"
    by (simp add: create_rag_chunks_positive_stride chunks_of_def)
  have starts: "map start_word ?chunks = filter ?keep ?starts"
    by (simp add: chunk_loop_starts)
  have "filter ?keep ?starts = ?starts \<or> filter ?keep ?starts = butlast ?starts"
    by (rule filter_all_but_last) (rule default_windows_kept)
  with starts have shape: "map start_word ?chunks = ?starts \<or> map start_word ?chunks = butlast ?starts"
    by simp
  from assms eq have j: "j < length ?chunks" by simp
  have len: "length ?chunks \<le> length ?starts"
    using shape
  proof
    assume "map start_word ?chunks = ?starts"
    then have "length (map start_word ?chunks) = length ?starts" by simp
    then show ?thesis by simp
  next
    assume "map start_word ?chunks = butlast ?starts"
    then have "length (map start_word ?chunks) = length (butlast ?starts)" by simp
    then show ?thesis by simp
  qed
  with j have js: "j < length ?starts" by simp
  have "map start_word ?chunks ! j = ?starts ! j"
    using shape
  proof
    assume "map start_word ?chunks = ?starts" then show ?thesis by simp
  next
    assume b: "map start_word ?chunks = butlast ?starts"
    then have "length (map start_word ?chunks) = length (butlast ?starts)" by simp
    with j have "j < length (butlast ?starts)" by simp
    with b show ?thesis by (simp add: nth_butlast)
  qed
  with j have "start_word (?chunks ! j) = ?starts ! j" by simp
  with range_up_nth [OF js] have sw: "start_word (?chunks ! j) = 800 * int j" by simp
  from range_up_nth_less [OF js] have lt: "800 * int j < ?n" by simp
  from j have mem: "?chunks ! j \<in> set ?chunks" by simp
  have fields: "chunk_pmid (?chunks ! j) = pmid \<and>
         chunk_text (?chunks ! j) = window_text ?words 1000 (start_word (?chunks ! j)) \<and>
         end_word (?chunks ! j) = min (start_word (?chunks ! j) + 1000) ?n \<and>
         word_count (?chunks ! j) = int (length (window_words ?words 1000 (start_word (?chunks ! j)))) \<and>
         50 < length (str_strip (chunk_text (?chunks ! j)))"
    by (rule chunk_loop_fields [OF _ mem]) simp
  from lt have "int (length (window_words ?words 1000 (800 * int j))) =
      min (800 * int j + 1000) ?n - 800 * int j"
    by (intro window_length) simp_all
  with fields sw lt eq show ?thesis by simp
qed

text \<open>
  C7, amended.  With \<open>chunk_size = 1000\<close> and \<open>overlap = 200\<close> the call always
  returns, and for consecutive emitted chunks \<open>k\<close> and \<open>k + 1\<close>: the second starts 800
  words after the first; \<open>end_word - 200\<close> of the first equals the start of the second
  exactly when the first holds the full 1000 words; and this is the case whenever chunk
  \<open>k + 1\<close> is not the last chunk.
\<close>

theorem consecutive_default_chunks:
  "create_rag_chunks text pmid 1000 200 = Inr (chunks_of (create_rag_chunks text pmid 1000 200)) \<and>
   (Suc k < length (chunks_of (create_rag_chunks text pmid 1000 200)) \<longrightarrow>
      start_word (chunks_of (create_rag_chunks text pmid 1000 200) ! Suc k) =
        start_word (chunks_of (create_rag_chunks text pmid 1000 200) ! k) + 800 \<and>
      (end_word (chunks_of (create_rag_chunks text pmid 1000 200) ! k) - 200 =
         start_word (chunks_of (create_rag_chunks text pmid 1000 200) ! Suc k)
       \<longleftrightarrow> word_count (chunks_of (create_rag_chunks text pmid 1000 200) ! k) = 1000) \<and>
      (Suc (Suc k) < length (chunks_of (create_rag_chunks text pmid 1000 200)) \<longrightarrow>
         end_word (chunks_of (create_rag_chunks text pmid 1000 200) ! k) - 200 =
           start_word (chunks_of (create_rag_chunks text pmid 1000 200) ! Suc k)))"
proof -
  let ?chunks = "chunks_of (create_rag_chunks text pmid 1000 200)"
  have ret: "create_rag_chunks text pmid 1000 200 = Inr ?chunks"
    by (simp add: create_rag_chunks_positive_stride chunks_of_def)
  have pair: "start_word (?chunks ! Suc k) = start_word (?chunks ! k) + 800 \<and>
      (end_word (?chunks ! k) - 200 = start_word (?chunks ! Suc k)
       \<longleftrightarrow> word_count (?chunks ! k) = 1000) \<and>
      (Suc (Suc k) < length ?chunks \<longrightarrow>
         end_word (?chunks ! k) - 200 = start_word (?chunks ! Suc k))"
    if sk: "Suc k < length ?chunks"
  proof -
    from sk have k: "k < length ?chunks" by simp
    note lk = default_chunk_layout [OF k]
    note lsk = default_chunk_layout [OF sk]
    have third: "end_word (?chunks ! k) - 200 = start_word (?chunks ! Suc k)"
      if ssk: "Suc (Suc k) < length ?chunks"
    proof -
      from default_chunk_layout [OF ssk]
      have "800 * int (Suc (Suc k)) < int (length (str_split text))" by simp
      with lk lsk show ?thesis by simp
    qed
    from lk lsk have "start_word (?chunks ! Suc k) = start_word (?chunks ! k) + 800" by simp
    moreover from lk lsk have "(end_word (?chunks ! k) - 200 = start_word (?chunks ! Suc k))
       = (word_count (?chunks ! k) = 1000)" by (simp add: min_def)
    ultimately show ?thesis using third by blast
  qed
  from ret pair show ?thesis by blast
qed

lemma split_from_words_a:
  "split_from [] (concat (replicate n [97, 32])) = replicate n [97]"
  by (induction n) (simp_all add: is_space_def)

lemma str_split_words_a: "str_split (words_a n) = replicate n [97]"
  by (simp add: str_split_def words_a_def split_from_words_a)

lemma split_from_letters:
  "split_from cur (replicate n 97) = (if cur @ replicate n 97 = [] then [] else [cur @ replicate n 97])"
proof (induction n arbitrary: cur)
  case 0
  then show ?case by simp
next
  case (Suc n)
  have "split_from cur (replicate (Suc n) 97) = split_from (cur @ [97]) (replicate n 97)"
    by (simp add: is_space_def)
  then show ?case by (simp add: Suc.IH)
qed

lemma str_split_long_word: "0 < n \<Longrightarrow> str_split (long_word n) = [long_word n]"
  by (simp add: str_split_def long_word_def split_from_letters)

lemma str_strip_long_word: "str_strip (long_word n) = long_word n"
proof (cases n)
  case 0
  then show ?thesis by (simp add: long_word_def str_strip_def)
next
  case (Suc m)
  have "\<not> is_space 97" by (simp add: is_space_def)
  then show ?thesis unfolding long_word_def
    by (intro str_strip_id) (simp add: Suc)
qed

lemma single_word_window: "window_text [w] 1000 0 = w"
  by (simp add: window_text_def window_words_def py_slice_def slice_index_def)

lemma window_of_words_a:
  "0 \<le> i \<Longrightarrow> i \<le> int n \<Longrightarrow> 0 \<le> cs \<Longrightarrow>
   window_words (replicate n [97]) cs i = replicate (nat (min (i + cs) (int n) - i)) [97]"
  by (simp add: window_words_def py_slice_def slice_index_def Let_def; arith)

lemma word_a_ok: "word_ok [97]"
  by (simp add: word_ok_def is_space_def)

lemma words_a_window_kept:
  assumes "0 \<le> i" "i \<le> int n" "0 \<le> cs" "26 \<le> min (i + cs) (int n) - i"
  shows "50 < length (str_strip (window_text (replicate n [97]) cs i))"
proof -
  let ?m = "nat (min (i + cs) (int n) - i)"
  have w: "window_words (replicate n [97]) cs i = replicate ?m [97]"
    using assms(1-3) by (rule window_of_words_a)
  have "50 < length (str_strip (str_join [32] (replicate ?m [97::nat])))"
  proof (rule many_words_long)
    fix w :: ustr
    assume "w \<in> set (replicate ?m [97])"
    then have "w = [97]" by simp
    then show "word_ok w" by (simp add: word_a_ok)
  next
    from assms(4) show "26 \<le> length (replicate ?m [97::nat])" by simp
  qed
  with w show ?thesis by (simp add: window_text_def)
qed

lemma range_900: "range_up 0 900 800 = [0, 800]"
  by (simp add: range_up.simps)

lemma range_1700: "range_up 0 1700 800 = [0, 800, 1600]"
  by (simp add: range_up.simps)

lemma range_1: "range_up 0 1 800 = [0]"
  by (simp add: range_up.simps)

lemma default_starts:
  "map start_word (chunks_of (create_rag_chunks text pmid 1000 200)) =
     filter (\<lambda>i. 50 < length (str_strip (window_text (str_split text) 1000 i)))
       (range_up 0 (int (length (str_split text))) 800)"
  by (simp add: create_rag_chunks_positive_stride chunks_of_def chunk_loop_starts)

lemma starts_900:
  "map start_word (chunks_of (create_rag_chunks (words_a 900) pmid 1000 200)) = [0, 800]"
  by (simp add: default_starts str_split_words_a range_900 words_a_window_kept)

lemma starts_1700:
  "map start_word (chunks_of (create_rag_chunks (words_a 1700) pmid 1000 200)) = [0, 800, 1600]"
  by (simp add: default_starts str_split_words_a range_1700 words_a_window_kept)

text \<open>
  C5, as stated, fails: nothing guards the stride.  With \<open>overlap = chunk_size\<close> the
  step of \<open>range\<close> is zero and the call raises \<open>ValueError\<close>.
\<close>

theorem zero_stride_counterexample:
  "create_rag_chunks (words_a 3) ''333'' 5 5 = Inl ValueError"
  by (simp add: create_rag_chunks_def py_range_def)

text \<open>
  C5, amended.  For every text and every configuration with \<open>overlap \<ge> chunk_size\<close>
  the call ends at once, without entering the loop: with a negative stride it returns
  the empty chunk list, with a zero stride it raises \<open>ValueError\<close>.  (Every function
  of the model is total, so no configuration makes the chunker run forever.)
\<close>

theorem nonpositive_stride:
  "chunk_size \<le> overlap \<Longrightarrow>
   create_rag_chunks text pmid chunk_size overlap =
     (if overlap = chunk_size then Inl ValueError else Inr [])"
  by (simp add: create_rag_chunks_def py_range_def Let_def range_down_empty)

theorem nonpositive_stride_witness:
  "(5::int) \<le> 7 \<and> create_rag_chunks (words_a 3) ''333'' 5 7 = Inr [] \<and>
   (1000::int) \<le> 1000 \<and> create_rag_chunks (words_a 3) ''333'' 1000 1000 = Inl ValueError"
  using nonpositive_stride [of 5 7 "words_a 3" "''333''"]
    nonpositive_stride [of 1000 1000 "words_a 3" "''333''"]
  by simp

text \<open>
  C6, as stated, fails at the boundary: the test is \<open>len(chunk_text.strip()) > 50\<close>, so
  the only window of a text made of one word of exactly 50 letters is dropped.
\<close>

theorem minimum_length_counterexample:
  "length (str_strip (window_text (str_split (long_word 50)) 1000 0)) = 50 \<and>
   create_rag_chunks (long_word 50) ''333'' 1000 200 = Inr []"
proof -
  have w: "window_text (str_split (long_word 50)) 1000 0 = long_word 50"
    by (simp add: str_split_long_word single_word_window)
  have l: "length (str_strip (long_word 50)) = 50"
    by (simp add: str_strip_long_word) (simp add: long_word_def)
  have "create_rag_chunks (long_word 50) ''333'' 1000 200 =
          Inr (chunk_body [long_word 50] ''333'' 1000 [] 0)"
    by (simp add: create_rag_chunks_positive_stride str_split_long_word range_1)
  moreover have "chunk_body [long_word 50] ''333'' 1000 [] 0 = []"
    by (simp add: chunk_body_def Let_def single_word_window l)
  ultimately show ?thesis using w l by simp
qed

text \<open>
  C6, amended.  Whenever \<open>range\<close> yields the indices (the stride is not zero), the call
  returns, and the emitted chunks are, in order, exactly the windows whose trimmed text
  is longer than 50 characters: every chunk carries the text of the window at its
  \<open>start_word\<close>, and no emitted chunk has a trimmed text of 50 characters or fewer.
\<close>

theorem emitted_chunks_are_long_windows:
  assumes "py_range 0 (int (length (str_split text))) (chunk_size - overlap) = Inr indices"
  shows "create_rag_chunks text pmid chunk_size overlap =
           Inr (chunks_of (create_rag_chunks text pmid chunk_size overlap)) \<and>
         map start_word (chunks_of (create_rag_chunks text pmid chunk_size overlap)) =
           filter (\<lambda>i. 50 < length (str_strip (window_text (str_split text) chunk_size i)))
             indices \<and>
         (\<forall>c \<in> set (chunks_of (create_rag_chunks text pmid chunk_size overlap)).
            chunk_text c = window_text (str_split text) chunk_size (start_word c) \<and>
            50 < length (str_strip (chunk_text c)))"
proof -
  let ?words = "str_split text"
  let ?chunks = "chunk_loop ?words pmid chunk_size indices []"
  from assms have run: "create_rag_chunks text pmid chunk_size overlap = Inr ?chunks"
    by (simp add: create_rag_chunks_def Let_def)
  then have eq: "chunks_of (create_rag_chunks text pmid chunk_size overlap) = ?chunks"
    by (simp add: chunks_of_def)
  have starts: "map start_word ?chunks =
      filter (\<lambda>i. 50 < length (str_strip (window_text ?words chunk_size i))) indices"
    by (simp add: chunk_loop_starts)
  have fields: "chunk_text c = window_text ?words chunk_size (start_word c) \<and>
            50 < length (str_strip (chunk_text c))" if mem: "c \<in> set ?chunks" for c
  proof -
    have "chunk_pmid c = pmid \<and>
         chunk_text c = window_text ?words chunk_size (start_word c) \<and>
         end_word c = min (start_word c + chunk_size) (int (length ?words)) \<and>
         word_count c = int (length (window_words ?words chunk_size (start_word c))) \<and>
         50 < length (str_strip (chunk_text c))"
      by (rule chunk_loop_fields [OF _ mem]) simp
    then show ?thesis by blast
  qed
  show ?thesis unfolding eq using run starts fields by blast
qed

theorem emitted_chunks_are_long_windows_witness:
  "py_range 0 (int (length (str_split (long_word 51)))) (1000 - 200) = Inr [0] \<and>
   map start_word (chunks_of (create_rag_chunks (long_word 51) ''333'' 1000 200)) = [0] \<and>
   length (str_strip (window_text (str_split (long_word 51)) 1000 0)) = 51"
proof -
  have r: "py_range 0 (int (length (str_split (long_word 51)))) (1000 - 200) = Inr [0]"
    by (simp add: py_range_def str_split_long_word range_1)
  have l: "length (str_strip (window_text (str_split (long_word 51)) 1000 0)) = 51"
    by (simp add: str_split_long_word single_word_window str_strip_long_word)
       (simp add: long_word_def)
  from emitted_chunks_are_long_windows [OF r, of "''333''"] l r show ?thesis by simp
qed

text \<open>
  C7, as stated, fails: \<open>end_word\<close> is clipped to the number of words.  A text of 900
  words gives two chunks, words 0 to 900 and words 800 to 900, and
  \<open>900 - 200 = 700\<close> is not the start 800 of the second chunk.
\<close>

theorem overlap_counterexample:
  "length (chunks_of (create_rag_chunks (words_a 900) ''333'' 1000 200)) = 2 \<and>
   end_word (chunks_of (create_rag_chunks (words_a 900) ''333'' 1000 200) ! 0) - 200 = 700 \<and>
   start_word (chunks_of (create_rag_chunks (words_a 900) ''333'' 1000 200) ! 1) = 800"
proof -
  let ?chunks = "chunks_of (create_rag_chunks (words_a 900) ''333'' 1000 200)"
  have "length (map start_word ?chunks) = 2" by (simp only: starts_900) simp
  then have len: "length ?chunks = 2" by simp
  then have "0 < length ?chunks" and "1 < length ?chunks" by simp_all
  from default_chunk_layout [OF this(1)] default_chunk_layout [OF this(2)] len
  show ?thesis by (simp add: str_split_words_a)
qed

theorem consecutive_default_chunks_witness:
  "Suc (Suc 0) < length (chunks_of (create_rag_chunks (words_a 1700) ''333'' 1000 200)) \<and>
   start_word (chunks_of (create_rag_chunks (words_a 1700) ''333'' 1000 200) ! Suc 0) =
     start_word (chunks_of (create_rag_chunks (words_a 1700) ''333'' 1000 200) ! 0) + 800 \<and>
   end_word (chunks_of (create_rag_chunks (words_a 1700) ''333'' 1000 200) ! 0) - 200 =
     start_word (chunks_of (create_rag_chunks (words_a 1700) ''333'' 1000 200) ! Suc 0) \<and>
   word_count (chunks_of (create_rag_chunks (words_a 1700) ''333'' 1000 200) ! 0) = 1000"
proof -
  let ?chunks = "chunks_of (create_rag_chunks (words_a 1700) ''333'' 1000 200)"
  have "length (map start_word ?chunks) = 3" by (simp only: starts_1700) simp
  then have len: "length ?chunks = 3" by simp
  from len have two: "Suc 0 < length ?chunks" and three: "Suc (Suc 0) < length ?chunks"
    by simp_all
  with consecutive_default_chunks [of "words_a 1700" "''333''" 0] show ?thesis by blast
qed

section \<open>Properties of the pipeline\<close>

lemma item_ok_mono:
  "item_ok processed item \<Longrightarrow> item_ok (insert p processed) item"
  by (simp add: item_ok_def split: if_splits)

lemma inv_initial: "pipeline_inv (initial index)"
  by (simp add: pipeline_inv_def initial_def)

lemma scraped_no_full_text: "map_of (extract_article_data e) ''full_text'' = None"
  by (simp add: extract_article_data_def)

lemma put_if_new_inv:
  assumes "pipeline_inv st" and "map_of article ''full_text'' = None"
  shows "pipeline_inv (put_if_new category term st article)"
proof (cases "map_of article ''pmid''")
  case None
  with assms(1) show ?thesis by (simp add: put_if_new_def)
next
  case (Some v)
  show ?thesis
  proof (cases v)
    case (PyStr p)
    with Some assms show ?thesis
      by (simp add: put_if_new_def pipeline_inv_def item_ok_def)
  qed (use Some assms(1) in \<open>simp_all add: put_if_new_def\<close>)
qed

lemma search_worker_put_inv:
  "pipeline_inv st \<Longrightarrow> (\<And>a. a \<in> set articles \<Longrightarrow> map_of a ''full_text'' = None) \<Longrightarrow>
   pipeline_inv (search_worker_put category term articles st)"
proof (induction articles arbitrary: st)
  case Nil
  then show ?case by simp
next
  case (Cons a articles)
  have "pipeline_inv (put_if_new category term st a)"
    by (rule put_if_new_inv [OF Cons.prems(1)]) (simp add: Cons.prems(2))
  then have "pipeline_inv (search_worker_put category term articles (put_if_new category term st a))"
    by (rule Cons.IH) (simp add: Cons.prems(2))
  then show ?case by simp
qed

lemma dict_set_other: "k' \<noteq> k \<Longrightarrow> map_of (dict_set d k v) k' = map_of d k'"
  by (simp add: dict_set_def update_conv')

lemma enriched_no_full_text:
  assumes "process_single_article analyse a = Some p"
  shows "map_of p ''full_text'' = map_of a ''full_text''"
proof (cases "analyse a")
  case None
  with assms show ?thesis by (simp add: process_single_article_def split: if_splits)
next
  case (Some e)
  with assms show ?thesis
    by (auto simp: process_single_article_def Let_def dict_set_other split: if_splits)
qed

lemma process_one_article:
  "process_articles analyse [a] =
     (case process_single_article analyse a of
        None \<Rightarrow> []
      | Some p \<Rightarrow> if p \<noteq> [] then [p] else [])"
  by (simp split: option.split)

lemma processing_worker_inv:
  assumes inv: "pipeline_inv st"
  shows "pipeline_inv (fst (processing_worker analyse disk st))"
proof (cases "processing_queue st")
  case Nil
  with inv show ?thesis by (simp add: processing_worker_def)
next
  case (Cons item rest)
  from inv Cons have head: "item_ok (processed_pmids st) item"
    and rest: "list_all (item_ok (processed_pmids st)) rest"
    and pend: "\<forall>it. fulltext_pending st = Some it \<longrightarrow>
                 item_stage it = ''fulltext'' \<and> item_ok (processed_pmids st) it"
    by (simp_all add: pipeline_inv_def)
  show ?thesis
  proof (cases "item_pmid item \<in> processed_pmids st")
    case True
    with Cons rest pend show ?thesis
      by (simp add: processing_worker_def pipeline_inv_def)
  next
    case False
    with head have meta: "item_stage item = ''metadata''"
      and nft: "map_of (item_article item) ''full_text'' = None"
      by (simp_all add: item_ok_def split: if_splits)
    let ?p = "insert (item_pmid item) (processed_pmids st)"
    from rest have rest': "list_all (item_ok ?p) rest"
      by (simp add: list_all_iff item_ok_mono)
    from pend have pend': "\<forall>it. fulltext_pending st = Some it \<longrightarrow>
                 item_stage it = ''fulltext'' \<and> item_ok ?p it"
      by (simp add: item_ok_mono)
    show ?thesis
    proof (cases "process_single_article analyse (item_article item)")
      case None
      with Cons False rest pend show ?thesis
        by (simp add: processing_worker_def pipeline_inv_def)
    next
      case (Some pa)
      then have "map_of pa ''full_text'' = None"
        using enriched_no_full_text [OF Some] nft by simp
      with Some Cons False rest rest' pend pend' show ?thesis
        by (simp add: processing_worker_def pipeline_inv_def item_ok_def Let_def)
    qed
  qed
qed

lemma fulltext_worker_get_inv:
  assumes inv: "pipeline_inv st" and free: "fulltext_pending st = None"
  shows "pipeline_inv (fulltext_worker_get st)"
proof (cases "processing_queue st")
  case Nil
  with inv show ?thesis by (simp add: fulltext_worker_get_def)
next
  case (Cons item rest)
  with inv free show ?thesis
    by (simp add: fulltext_worker_get_def pipeline_inv_def)
qed

lemma fulltext_worker_finish_inv:
  assumes inv: "pipeline_inv st"
  shows "pipeline_inv (fulltext_worker_finish denv disk st)"
proof (cases "fulltext_pending st")
  case None
  with inv show ?thesis by (simp add: fulltext_worker_finish_def)
next
  case (Some item)
  with inv have "item_stage item = ''fulltext''" and "item_ok (processed_pmids st) item"
    by (simp_all add: pipeline_inv_def)
  then have "item_pmid item \<in> processed_pmids st" by (simp add: item_ok_def)
  with inv Some show ?thesis
    by (simp add: fulltext_worker_finish_def pipeline_inv_def item_ok_def Let_def)
qed

lemma ocr_worker_inv:
  assumes inv: "pipeline_inv st"
  shows "pipeline_inv (ocr_worker pdf_exists metadata_exists disk st)"
proof (cases "processing_queue st")
  case Nil
  with inv show ?thesis by (simp add: ocr_worker_def)
next
  case (Cons item rest)
  with inv show ?thesis
    by (simp add: ocr_worker_def pipeline_inv_def)
qed

lemma step_inv: "worker_step st st' \<Longrightarrow> pipeline_inv st \<Longrightarrow> pipeline_inv st'"
proof (induction rule: worker_step.induct)
  case (search st category query results)
  show ?case
  proof (rule search_worker_put_inv [OF search.prems])
    fix a
    assume "a \<in> set (map extract_article_data results)"
    then show "map_of a ''full_text'' = None" by (auto simp: scraped_no_full_text)
  qed
next
  case (processing st analyse disk)
  then show ?case by (simp add: processing_worker_inv)
next
  case (fulltext_get st)
  then show ?case by (simp add: fulltext_worker_get_inv)
next
  case (fulltext_finish st denv disk)
  then show ?case by (simp add: fulltext_worker_finish_inv)
next
  case (ocr st pdf_exists metadata_exists disk)
  then show ?case by (simp add: ocr_worker_inv)
qed

lemma runs_to_inv: "runs_to st st' \<Longrightarrow> pipeline_inv st \<Longrightarrow> pipeline_inv st'"
  by (induction rule: runs_to.induct) (simp_all add: step_inv)

lemma reachable_inv: "reachable index st \<Longrightarrow> pipeline_inv st"
  unfolding reachable_def using inv_initial by (rule runs_to_inv [rotated])

lemma runs_to_trans: "runs_to st' st'' \<Longrightarrow> runs_to st st' \<Longrightarrow> runs_to st st''"
  by (induction rule: runs_to.induct) (auto intro: runs_to.later)

lemma reachable_step: "reachable index st \<Longrightarrow> worker_step st st' \<Longrightarrow> reachable index st'"
  unfolding reachable_def by (rule runs_to.later)

lemma reachable_start: "reachable index (initial index)"
  unfolding reachable_def by (rule runs_to.here)

lemma failed_download_returns_article:
  "all_sources_fail denv \<Longrightarrow> download_full_text denv article = (article, [])"
  by (simp add: all_sources_fail_def download_full_text_def)

lemma put_if_new_eq:
  "put_if_new category term st article =
     (case new_item (processed_pmids st) category term article of
        None \<Rightarrow> st
      | Some item \<Rightarrow> st\<lparr>processing_queue := processing_queue st @ [item]\<rparr>)"
proof (cases "map_of article ''pmid''")
  case None
  then show ?thesis by (simp add: put_if_new_def new_item_def article_pmid_def)
next
  case (Some v)
  then show ?thesis
    by (cases v) (simp_all add: put_if_new_def new_item_def article_pmid_def)
qed

lemma put_if_new_keeps:
  "processed_pmids (put_if_new category term st article) = processed_pmids st \<and>
   store (put_if_new category term st article) = store st \<and>
   fulltext_pending (put_if_new category term st article) = fulltext_pending st"
  by (simp add: put_if_new_eq split: option.split)

lemma search_worker_put_queue:
  "processing_queue (search_worker_put category term articles st) =
     processing_queue st @
     List.map_filter (new_item (processed_pmids st) category term) articles \<and>
   processed_pmids (search_worker_put category term articles st) = processed_pmids st \<and>
   store (search_worker_put category term articles st) = store st"
proof (induction articles arbitrary: st)
  case Nil
  show ?case by (simp add: map_filter_simps)
next
  case (Cons a articles)
  note keeps = put_if_new_keeps [of category "term" st a]
  from Cons.IH [of "put_if_new category term st a"] keeps
  show ?case
    by (simp add: map_filter_simps put_if_new_eq [of category "term" st a] split: option.split)
qed

text \<open>
  C8, as stated, fails for a record without identifier: the scraper gives \<open>None\<close> for a
  \<open>PMID\<close> element without text; \<open>None\<close> is not in the (empty) index, and the record is
  not put on the queue, because the worker tests \<open>pmid and pmid not in processed\<close>.
\<close>

theorem missing_identifier_counterexample:
  "map_of (extract_article_data (sample_record None)) ''pmid'' = Some PyNone \<and>
   processed_pmids (initial {}) = {} \<and>
   processing_queue
     (search_worker_put ''extraction'' ''terpene''
        [extract_article_data (sample_record None)] (initial {})) = []"
  by (simp add: put_if_new_def extract_article_data_def sample_record_def opt_str_def
      initial_def)

text \<open>
  C8, amended.  Of a search result list, the search worker appends to the queue, in
  order, exactly one item at stage \<open>metadata\<close> for each record that has a non-empty
  identifier absent from the index; a record whose identifier is in the index, or that
  has no identifier, produces no item.  The index itself is not changed by the search
  worker.
\<close>

theorem only_new_identifiers_enqueued:
  "processing_queue (search_worker_put category term articles st) =
     processing_queue st @
     List.map_filter (new_item (processed_pmids st) category term) articles \<and>
   processed_pmids (search_worker_put category term articles st) = processed_pmids st \<and>
   (\<forall>article item. new_item (processed_pmids st) category term article = Some item \<longrightarrow>
      article_pmid article = Some (item_pmid item) \<and> item_pmid item \<noteq> [] \<and>
      item_pmid item \<notin> processed_pmids st \<and>
      item_stage item = ''metadata'' \<and> item_article item = article) \<and>
   (\<forall>article p. article_pmid article = Some p \<and> p \<notin> processed_pmids st \<longrightarrow>
      new_item (processed_pmids st) category term article \<noteq> None) \<and>
   (\<forall>article p. article_pmid article = Some p \<and> p \<in> processed_pmids st \<longrightarrow>
      new_item (processed_pmids st) category term article = None)"
proof -
  have built: "article_pmid article = Some (item_pmid item) \<and> item_pmid item \<noteq> [] \<and>
      item_pmid item \<notin> processed_pmids st \<and>
      item_stage item = ''metadata'' \<and> item_article item = article"
    if "new_item (processed_pmids st) category term article = Some item" for article item
  proof (cases "article_pmid article")
    case None
    with that show ?thesis by (simp add: new_item_def)
  next
    case (Some p)
    then have "p \<noteq> []"
      by (auto simp: article_pmid_def split: option.splits pyval.splits if_splits)
    with Some that show ?thesis by (auto simp: new_item_def split: if_splits)
  qed
  have fresh: "new_item (processed_pmids st) category term article \<noteq> None"
    if "article_pmid article = Some p \<and> p \<notin> processed_pmids st" for article p
    using that by (simp add: new_item_def)
  have known: "new_item (processed_pmids st) category term article = None"
    if "article_pmid article = Some p \<and> p \<in> processed_pmids st" for article p
    using that by (simp add: new_item_def)
  from search_worker_put_queue [of category "term" articles st] built fresh known
  show ?thesis by blast
qed

theorem only_new_identifiers_enqueued_witness:
  "map item_pmid
     (processing_queue
        (search_worker_put ''extraction'' ''terpene''
           (map extract_article_data [sample_record (Some ''111''), sample_record (Some ''222'')])
           (initial {''111''}))) = [''222''] \<and>
   article_pmid (extract_article_data (sample_record (Some ''111''))) = Some ''111'' \<and>
   article_pmid (extract_article_data (sample_record (Some ''222''))) = Some ''222'' \<and>
   ''111'' \<in> processed_pmids (initial {''111''}) \<and>
   ''222'' \<notin> processed_pmids (initial {''111''})"
proof -
  have one: "article_pmid (extract_article_data (sample_record (Some ''111''))) = Some ''111''"
    by (simp add: article_pmid_def extract_article_data_def sample_record_def opt_str_def)
  have two: "article_pmid (extract_article_data (sample_record (Some ''222''))) = Some ''222''"
    by (simp add: article_pmid_def extract_article_data_def sample_record_def opt_str_def)
  have idx: "processed_pmids (initial {''111''}) = {''111''}"
    "processing_queue (initial {''111''}) = []"
    by (simp_all add: initial_def)
  from only_new_identifiers_enqueued
         [of "''extraction''" "''terpene''"
             "map extract_article_data [sample_record (Some ''111''), sample_record (Some ''222'')]"
             "initial {''111''}", THEN conjunct1]
  have "map item_pmid
     (processing_queue
        (search_worker_put ''extraction'' ''terpene''
           (map extract_article_data [sample_record (Some ''111''), sample_record (Some ''222'')])
           (initial {''111''}))) = [''222'']"
    by (simp add: idx map_filter_simps new_item_def one two)
  with one two idx show ?thesis by simp
qed

lemma fulltext_worker_requeues:
  "processing_queue st = item # rest \<Longrightarrow> item_stage item \<noteq> ''fulltext'' \<Longrightarrow>
   fulltext_worker_get st = st\<lparr>processing_queue := rest @ [item]\<rparr>"
  by (simp add: fulltext_worker_get_def)

lemma ocr_worker_requeues:
  "processing_queue st = item # rest \<Longrightarrow> item_stage item \<noteq> ''ocr'' \<Longrightarrow>
   ocr_worker pdf_exists metadata_exists disk st = st\<lparr>processing_queue := rest @ [item]\<rparr>"
  by (simp add: ocr_worker_def)

lemma processing_worker_discards:
  "processing_queue st = item # rest \<Longrightarrow> item_pmid item \<in> processed_pmids st \<Longrightarrow>
   processing_worker analyse disk st = (st\<lparr>processing_queue := rest\<rparr>, None)"
  by (simp add: processing_worker_def)


lemma filtered_article_raises:
  assumes "processing_queue st = item # rest"
    and "item_pmid item \<notin> processed_pmids st"
    and "process_single_article analyse (item_article item) = None"
  shows "processing_worker analyse disk st = (st\<lparr>processing_queue := rest\<rparr>, Some IndexError)"
  using assms by (simp add: processing_worker_def)

lemma empty_article_raises:
  assumes "processing_queue st = item # rest"
    and "item_pmid item \<notin> processed_pmids st"
    and "process_single_article analyse (item_article item) = Some []"
  shows "processing_worker analyse disk st = (st\<lparr>processing_queue := rest\<rparr>, Some IndexError)"
  using assms by (simp add: processing_worker_def)

lemma enriched_article_forwarded:
  assumes "processing_queue st = item # rest"
    and "item_pmid item \<notin> processed_pmids st"
    and "process_single_article analyse (item_article item) = Some pa" and "pa \<noteq> []"
  shows "processing_worker analyse disk st =
     (st\<lparr>store := store st @ store_metadata_and_abstract disk (item_pmid item) pa,
         processing_queue := rest @
           [\<lparr>item_pmid = item_pmid item, item_article = pa, item_stage = ''fulltext'',
             item_category = item_category item, item_search_term = item_search_term item\<rparr>],
         processed_pmids := insert (item_pmid item) (processed_pmids st)\<rparr>, None)"
  using assms by (simp add: processing_worker_def Let_def)

lemma low_score_filtered:
  "relevance_score e < float_0_3 \<Longrightarrow> analyse article = Some e \<Longrightarrow>
   process_single_article analyse article = None"
  by (simp add: process_single_article_def Let_def)

lemma search_worker_put_pending:
  "fulltext_pending (search_worker_put category term articles st) = fulltext_pending st"
  by (induction articles arbitrary: st) (simp_all add: put_if_new_keeps)

lemma new_item_stage:
  "new_item processed category term article = Some item \<Longrightarrow> item_stage item = ''metadata''"
  by (auto simp: new_item_def split: option.splits if_splits)

lemma no_later_new_items:
  "filter (\<lambda>item. item_pmid item = p \<and> item_stage item \<noteq> ''metadata'')
     (List.map_filter (new_item processed category term) articles) = []"
proof (induction articles)
  case Nil
  show ?case by (simp add: map_filter_simps)
next
  case (Cons a articles)
  show ?case
  proof (cases "new_item processed category term a")
    case None
    with Cons show ?thesis by (simp add: map_filter_simps)
  next
    case (Some item)
    with Cons new_item_stage [OF Some] show ?thesis by (simp add: map_filter_simps)
  qed
qed

lemma later_items_search:
  "later_items p (search_worker_put category term articles st) = later_items p st"
  by (simp add: later_items_def search_worker_put_queue search_worker_put_pending
      no_later_new_items)

lemma later_items_drop_head:
  "processing_queue st = item # rest \<Longrightarrow>
   later_items p (st\<lparr>processing_queue := rest\<rparr>) \<le> later_items p st"
  by (simp add: later_items_def)

lemma later_items_requeue:
  "processing_queue st = item # rest \<Longrightarrow>
   later_items p (st\<lparr>processing_queue := rest @ [item]\<rparr>) = later_items p st"
  by (simp add: later_items_def)

lemma later_items_forward:
  assumes "processing_queue st = item # rest"
  shows "later_items p
           (st\<lparr>store := w,
               processing_queue := rest @
                 [\<lparr>item_pmid = item_pmid item, item_article = pa, item_stage = ''fulltext'',
                   item_category = c, item_search_term = t\<rparr>],
               processed_pmids := insert (item_pmid item) (processed_pmids st)\<rparr>)
         \<le> later_items p st + (if p = item_pmid item then 1 else 0)"
  using assms by (simp add: later_items_def)

lemma processing_effect:
  "processed_pmids st \<subseteq> processed_pmids (fst (processing_worker analyse disk st)) \<and>
   (later_items p (fst (processing_worker analyse disk st)) \<le> later_items p st \<or>
    p \<notin> processed_pmids st \<and> p \<in> processed_pmids (fst (processing_worker analyse disk st)) \<and>
    later_items p (fst (processing_worker analyse disk st)) \<le> later_items p st + 1)"
proof (cases "processing_queue st")
  case Nil
  then show ?thesis by (simp add: processing_worker_def)
next
  case (Cons item rest)
  show ?thesis
  proof (cases "item_pmid item \<in> processed_pmids st")
    case True
    from processing_worker_discards [OF Cons True, of analyse disk]
      later_items_drop_head [OF Cons, of p]
    show ?thesis by simp
  next
    case False
    show ?thesis
    proof (cases "process_single_article analyse (item_article item)")
      case None
      from filtered_article_raises [OF Cons False None, of disk]
        later_items_drop_head [OF Cons, of p]
      show ?thesis by simp
    next
      case (Some pa)
      show ?thesis
      proof (cases "pa = []")
        case True
        with Some have "process_single_article analyse (item_article item) = Some []" by simp
        from empty_article_raises [OF Cons False this, of disk]
          later_items_drop_head [OF Cons, of p]
        show ?thesis by simp
      next
        case ne: False
        note run = enriched_article_forwarded [OF Cons False Some ne, of disk]
        note bound = later_items_forward [OF Cons, where p = p and pa = pa
            and w = "store st @ store_metadata_and_abstract disk (item_pmid item) pa"
            and c = "item_category item" and t = "item_search_term item"]
        show ?thesis
        proof (cases "p = item_pmid item")
          case True
          with run bound False show ?thesis by auto
        next
          case False
          with run bound show ?thesis by auto
        qed
      qed
    qed
  qed
qed

lemma fulltext_get_effect:
  assumes "fulltext_pending st = None"
  shows "processed_pmids (fulltext_worker_get st) = processed_pmids st \<and>
         later_items p (fulltext_worker_get st) = later_items p st"
proof (cases "processing_queue st")
  case Nil
  then show ?thesis by (simp add: fulltext_worker_get_def)
next
  case (Cons item rest)
  with assms show ?thesis by (simp add: fulltext_worker_get_def later_items_def)
qed

lemma fulltext_finish_effect:
  "processed_pmids (fulltext_worker_finish denv disk st) = processed_pmids st \<and>
   later_items p (fulltext_worker_finish denv disk st) \<le> later_items p st"
proof (cases "fulltext_pending st")
  case None
  then show ?thesis by (simp add: fulltext_worker_finish_def)
next
  case (Some item)
  then show ?thesis by (simp add: fulltext_worker_finish_def later_items_def Let_def)
qed

lemma ocr_effect:
  "processed_pmids (ocr_worker pdf_exists metadata_exists disk st) = processed_pmids st \<and>
   later_items p (ocr_worker pdf_exists metadata_exists disk st) \<le> later_items p st"
proof (cases "processing_queue st")
  case Nil
  then show ?thesis by (simp add: ocr_worker_def)
next
  case (Cons item rest)
  then show ?thesis by (simp add: ocr_worker_def later_items_def)
qed

lemma step_effect:
  assumes "worker_step st st'"
  shows "processed_pmids st \<subseteq> processed_pmids st' \<and>
         (later_items p st' \<le> later_items p st \<or>
          p \<notin> processed_pmids st \<and> p \<in> processed_pmids st' \<and>
          later_items p st' \<le> later_items p st + 1)"
  using assms
proof (cases rule: worker_step.cases)
  case (search category query results)
  then show ?thesis by (simp add: later_items_search search_worker_put_queue)
next
  case (processing analyse disk)
  with processing_effect [of st analyse disk p] show ?thesis by simp
next
  case fulltext_get
  with fulltext_get_effect [of st p] show ?thesis by simp
next
  case (fulltext_finish denv disk)
  with fulltext_finish_effect [of denv disk st p] show ?thesis by simp
next
  case (ocr pdf_exists metadata_exists disk)
  with ocr_effect [of pdf_exists metadata_exists disk st p] show ?thesis by simp
qed

lemma step_single: "worker_step st st' \<Longrightarrow> single_inv st \<Longrightarrow> single_inv st'"
  unfolding single_inv_def
proof (intro allI)
  fix p
  assume step: "worker_step st st'"
    and inv: "\<forall>p. later_items p st \<le> 1 \<and> (p \<notin> processed_pmids st \<longrightarrow> later_items p st = 0)"
  from inv have one: "later_items p st \<le> 1"
    and none: "p \<notin> processed_pmids st \<longrightarrow> later_items p st = 0" by simp_all
  from step_effect [OF step, of p] one none
  show "later_items p st' \<le> 1 \<and> (p \<notin> processed_pmids st' \<longrightarrow> later_items p st' = 0)"
    by auto
qed

lemma single_initial: "single_inv (initial index)"
  by (simp add: single_inv_def later_items_def initial_def)

lemma runs_to_single: "runs_to st st' \<Longrightarrow> single_inv st \<Longrightarrow> single_inv st'"
  by (induction rule: runs_to.induct) (simp_all add: step_single)

lemma reachable_single: "reachable index st \<Longrightarrow> single_inv st"
  unfolding reachable_def using single_initial by (rule runs_to_single [rotated])

lemma runs_to_stays_out:
  "runs_to st st' \<Longrightarrow> p \<in> processed_pmids st \<Longrightarrow> later_items p st = 0 \<Longrightarrow>
   p \<in> processed_pmids st' \<and> later_items p st' = 0"
proof (induction rule: runs_to.induct)
  case (here st)
  then show ?case by simp
next
  case (later st st' st'')
  then have "p \<in> processed_pmids st'" and "later_items p st' = 0" by simp_all
  with step_effect [OF later.hyps(2), of p] show ?case by auto
qed

lemma no_later_items:
  assumes "later_items p st = 0"
  shows "(\<forall>it \<in> set (processing_queue st). item_pmid it = p \<longrightarrow> item_stage it = ''metadata'') \<and>
         (\<forall>it. fulltext_pending st = Some it \<longrightarrow> item_pmid it \<noteq> p)"
proof -
  from assms have q: "filter (\<lambda>item. item_pmid item = p \<and> item_stage item \<noteq> ''metadata'')
               (processing_queue st) = []"
    and pend: "(case fulltext_pending st of None \<Rightarrow> 0
                | Some item \<Rightarrow> if item_pmid item = p then 1 else 0) = (0::nat)"
    by (simp_all add: later_items_def)
  from q have "\<forall>it \<in> set (processing_queue st). item_pmid it = p \<longrightarrow> item_stage it = ''metadata''"
    by (auto simp: filter_empty_conv)
  moreover from pend have "\<forall>it. fulltext_pending st = Some it \<longrightarrow> item_pmid it \<noteq> p"
    by (auto split: option.splits if_splits)
  ultimately show ?thesis by simp
qed

lemma sample_article_pmid:
  "article_pmid (extract_article_data (sample_record (Some p))) = (if p = [] then None else Some p)"
  by (simp add: article_pmid_def extract_article_data_def opt_str_def sample_record_def)

lemma sample_found_state:
  "sample_found =
     \<lparr>processing_queue = [sample_item ''333'' ''metadata''], processed_pmids = {}, store = [],
      fulltext_pending = None\<rparr>"
  by (simp add: sample_found_def put_if_new_eq new_item_def sample_article_pmid initial_def
      sample_item_def)

lemma twice_found_state:
  "twice_found =
     \<lparr>processing_queue = [sample_item ''333'' ''metadata'', sample_item ''333'' ''metadata''],
      processed_pmids = {}, store = [], fulltext_pending = None\<rparr>"
  by (simp add: twice_found_def put_if_new_eq new_item_def sample_article_pmid initial_def
      sample_item_def)

lemma sample_scorable: "scorable (extract_article_data (sample_record p))"
  by (simp add: scorable_def lowerable_def joinable_def extract_article_data_def opt_str_def
      sample_record_def)

lemma offtopic_scorable: "scorable (extract_article_data (offtopic_record p))"
  by (simp add: scorable_def lowerable_def joinable_def extract_article_data_def opt_str_def
      offtopic_record_def)

lemma sample_article_enriched:
  "process_single_article (analyse_score float_0_8)
     (extract_article_data (sample_record (Some ''333''))) = Some enriched_sample_article"
proof -
  have "\<not> float_0_8 < float_0_3" by (simp add: float_0_8_def float_0_3_def)
  then show ?thesis
    by (simp add: process_single_article_def sample_scorable analyse_score_def Let_def
        enriched_sample_article_def)
       (simp add: dict_set_def extract_article_data_def)
qed

lemma enriched_sample_nonempty: "enriched_sample_article \<noteq> []"
  by (simp add: enriched_sample_article_def extract_article_data_def)

lemma sample_enriched_state:
  "sample_enriched =
     \<lparr>processing_queue = [forwarded_item], processed_pmids = {''333''},
      store = [WriteAbstract ''333'', WriteMetadata ''333''], fulltext_pending = None\<rparr>"
proof -
  have q: "processing_queue sample_found = [sample_item ''333'' ''metadata'']"
    and n: "item_pmid (sample_item ''333'' ''metadata'') \<notin> processed_pmids sample_found"
    by (simp_all add: sample_found_state sample_item_def)
  have a: "process_single_article (analyse_score float_0_8)
             (item_article (sample_item ''333'' ''metadata'')) = Some enriched_sample_article"
    by (simp add: sample_item_def sample_article_enriched)
  from enriched_article_forwarded [OF q n a enriched_sample_nonempty, of 2]
  show ?thesis
    by (simp add: sample_enriched_def sample_found_state sample_item_def forwarded_item_def
        store_metadata_and_abstract_def)
qed

lemma twice_enriched_state:
  "twice_enriched =
     \<lparr>processing_queue = [sample_item ''333'' ''metadata'', forwarded_item],
      processed_pmids = {''333''},
      store = [WriteAbstract ''333'', WriteMetadata ''333''], fulltext_pending = None\<rparr>"
proof -
  have q: "processing_queue twice_found =
             sample_item ''333'' ''metadata'' # [sample_item ''333'' ''metadata'']"
    and n: "item_pmid (sample_item ''333'' ''metadata'') \<notin> processed_pmids twice_found"
    by (simp_all add: twice_found_state sample_item_def)
  have a: "process_single_article (analyse_score float_0_8)
             (item_article (sample_item ''333'' ''metadata'')) = Some enriched_sample_article"
    by (simp add: sample_item_def sample_article_enriched)
  from enriched_article_forwarded [OF q n a enriched_sample_nonempty, of 2]
  show ?thesis
    by (simp add: twice_enriched_def twice_found_state sample_item_def forwarded_item_def
        store_metadata_and_abstract_def)
qed

lemma twice_requeued_state:
  "twice_requeued =
     \<lparr>processing_queue = [forwarded_item, sample_item ''333'' ''metadata''],
      processed_pmids = {''333''},
      store = [WriteAbstract ''333'', WriteMetadata ''333''], fulltext_pending = None\<rparr>"
  by (simp add: twice_requeued_def twice_enriched_state fulltext_worker_get_def sample_item_def)

lemma twice_taken_state:
  "twice_taken =
     \<lparr>processing_queue = [sample_item ''333'' ''metadata''],
      processed_pmids = {''333''},
      store = [WriteAbstract ''333'', WriteMetadata ''333''],
      fulltext_pending = Some forwarded_item\<rparr>"
  by (simp add: twice_taken_def twice_requeued_state fulltext_worker_get_def forwarded_item_def)

lemma twice_taken_reachable: "reachable {} twice_taken"
proof -
  have "reachable {} twice_found"
    unfolding twice_found_def by (rule reachable_step [OF reachable_start worker_step.search])
  then have "reachable {} twice_enriched"
    unfolding twice_enriched_def by (rule reachable_step) (rule worker_step.processing)
  then have "reachable {} twice_requeued"
    unfolding twice_requeued_def
    by (rule reachable_step) (rule worker_step.fulltext_get, simp add: twice_enriched_state)
  then show ?thesis
    unfolding twice_taken_def
    by (rule reachable_step) (rule worker_step.fulltext_get, simp add: twice_requeued_state)
qed

lemma failing_download_fails: "all_sources_fail failing_download"
  by (simp add: all_sources_fail_def failing_download_def get_truthy_def)

lemma twice_later_run: "runs_to (fulltext_worker_finish failing_download 2 twice_taken) twice_later"
  unfolding twice_later_def twice_failed_def
  by (rule runs_to.later [OF runs_to.here worker_step.ocr])

text \<open>
  C4.  In every run of the pipeline, when the full-text worker holds an item and the
  fetch fails on all sources (nothing downloaded before, no adapter gives a non-empty
  full text), finishing the iteration puts nothing on the queue and writes nothing:
  the state only loses the held item.  The held item was the only item of its
  identifier beyond the metadata stage, so in every state the pipeline can get to
  afterwards no item of that identifier is at stage \<open>fulltext\<close> or \<open>ocr\<close>, on the
  queue or in the hands of the full-text worker: the identifier never reaches the
  chunk stage.  Its identifier is nevertheless in the set of processed identifiers,
  where the processing worker put it when the metadata stage completed, and stays
  there.
\<close>

theorem failed_fetch_dropped_but_deduplicated:
  assumes "reachable index st" and "fulltext_pending st = Some item"
    and "all_sources_fail denv"
    and "runs_to (fulltext_worker_finish denv disk st) st'"
  shows "item_stage item = ''fulltext'' \<and>
         item_pmid item \<in> processed_pmids st \<and>
         fulltext_worker_finish denv disk st = st\<lparr>fulltext_pending := None\<rparr> \<and>
         item_pmid item \<in> processed_pmids st' \<and>
         (\<forall>it \<in> set (processing_queue st'). item_pmid it = item_pmid item \<longrightarrow>
            item_stage it = ''metadata'') \<and>
         (\<forall>it. fulltext_pending st' = Some it \<longrightarrow> item_pmid it \<noteq> item_pmid item)"
proof -
  let ?p = "item_pmid item"
  from assms(1) have "pipeline_inv st" by (rule reachable_inv)
  with assms(2) have stage: "item_stage item = ''fulltext''"
    and ok: "item_ok (processed_pmids st) item"
    by (simp_all add: pipeline_inv_def)
  then have known: "?p \<in> processed_pmids st"
    and nft: "map_of (item_article item) ''full_text'' = None"
    by (simp_all add: item_ok_def)
  from nft have "\<not> get_truthy (item_article item) ''full_text''"
    by (simp add: get_truthy_def)
  with assms(2) failed_download_returns_article [OF assms(3)]
  have fin: "fulltext_worker_finish denv disk st = st\<lparr>fulltext_pending := None\<rparr>"
    by (simp add: fulltext_worker_finish_def Let_def)
  from assms(1) have "single_inv st" by (rule reachable_single)
  then have "later_items ?p st \<le> 1" by (simp add: single_inv_def)
  with assms(2) have "later_items ?p (st\<lparr>fulltext_pending := None\<rparr>) = 0"
    by (simp add: later_items_def)
  with fin have gone: "later_items ?p (fulltext_worker_finish denv disk st) = 0" by simp
  from known fin have "?p \<in> processed_pmids (fulltext_worker_finish denv disk st)" by simp
  from runs_to_stays_out [OF assms(4) this gone]
  have after: "?p \<in> processed_pmids st'" and none: "later_items ?p st' = 0" by simp_all
  from stage known fin after no_later_items [OF none] show ?thesis by blast
qed

theorem failed_fetch_dropped_but_deduplicated_witness:
  "reachable {} twice_taken \<and> fulltext_pending twice_taken = Some forwarded_item \<and>
   all_sources_fail failing_download \<and>
   runs_to (fulltext_worker_finish failing_download 2 twice_taken) twice_later \<and>
   item_pmid forwarded_item = ''333'' \<and> item_stage forwarded_item = ''fulltext'' \<and>
   fulltext_worker_finish failing_download 2 twice_taken =
     twice_taken\<lparr>fulltext_pending := None\<rparr> \<and>
   ''333'' \<in> processed_pmids twice_later \<and>
   map item_pmid (processing_queue twice_later) = [''333''] \<and>
   map item_stage (processing_queue twice_later) = [''metadata''] \<and>
   fulltext_pending twice_later = None"
proof -
  have pend: "fulltext_pending twice_taken = Some forwarded_item"
    by (simp add: twice_taken_state)
  note main = failed_fetch_dropped_but_deduplicated
         [OF twice_taken_reachable pend failing_download_fails twice_later_run]
  then have fin: "fulltext_worker_finish failing_download 2 twice_taken =
     twice_taken\<lparr>fulltext_pending := None\<rparr>" by blast
  have "twice_failed = twice_taken\<lparr>fulltext_pending := None\<rparr>"
    by (simp only: twice_failed_def fin)
  then have failed: "twice_failed =
     \<lparr>processing_queue = [sample_item ''333'' ''metadata''],
      processed_pmids = {''333''},
      store = [WriteAbstract ''333'', WriteMetadata ''333''],
      fulltext_pending = None\<rparr>"
    by (simp add: twice_taken_state)
  have later: "twice_later =
     \<lparr>processing_queue = [sample_item ''333'' ''metadata''],
      processed_pmids = {''333''},
      store = [WriteAbstract ''333'', WriteMetadata ''333''],
      fulltext_pending = None\<rparr>"
    by (simp add: twice_later_def failed ocr_worker_def sample_item_def)
  have id: "item_pmid forwarded_item = ''333''" "item_stage forwarded_item = ''fulltext''"
    by (simp_all add: forwarded_item_def)
  have vals: "''333'' \<in> processed_pmids twice_later"
    "map item_pmid (processing_queue twice_later) = [''333'']"
    "map item_stage (processing_queue twice_later) = [''metadata'']"
    "fulltext_pending twice_later = None"
    by (simp_all add: later sample_item_def)
  from twice_taken_reachable pend failing_download_fails twice_later_run id fin vals
  show ?thesis by blast
qed

lemma sample_enriched_reachable: "reachable {} sample_enriched"
proof -
  have "reachable {} sample_found"
    unfolding sample_found_def by (rule reachable_step [OF reachable_start worker_step.search])
  then show ?thesis
    unfolding sample_enriched_def by (rule reachable_step) (rule worker_step.processing)
qed

text \<open>
  C2 on the code.  The full-text worker and the OCR worker put an item of another stage
  back at the tail (\<open>fulltext_worker_requeues\<close>, \<open>ocr_worker_requeues\<close>); the
  processing worker has no such test.  In the run where record 333 has just been
  enriched, the queue holds its item at stage \<open>fulltext\<close>; when the processing worker
  takes it, the identifier is already in the set, and the item is discarded.
\<close>

theorem metadata_worker_discards_later_stage:
  "reachable {} sample_enriched \<and>
   map item_pmid (processing_queue sample_enriched) = [''333''] \<and>
   map item_stage (processing_queue sample_enriched) = [''fulltext''] \<and>
   processing_queue (fst (processing_worker (analyse_score (1 / 2)) 2 sample_enriched)) = [] \<and>
   snd (processing_worker (analyse_score (1 / 2)) 2 sample_enriched) = None \<and>
   store (fst (processing_worker (analyse_score (1 / 2)) 2 sample_enriched)) =
     store sample_enriched"
proof -
  have q: "processing_queue sample_enriched = [forwarded_item]"
    and k: "item_pmid forwarded_item \<in> processed_pmids sample_enriched"
    by (simp_all add: sample_enriched_state forwarded_item_def)
  from processing_worker_discards [OF q k, of "analyse_score (1 / 2)" 2]
    sample_enriched_reachable q
  show ?thesis by (simp add: forwarded_item_def)
qed

text \<open>
  C3 on the code.  The off-topic record is scored 0.0, below the threshold, so the
  enrichment returns \<open>None\<close>, \<open>process_articles\<close> returns the empty list, and indexing
  it raises \<open>IndexError\<close>: no item is put on the queue, nothing is stored and the
  identifier is not added to the set, but the iteration ends in the exception handler
  of the loop.
\<close>

theorem low_relevance_raises_index_error:
  "scorable (extract_article_data (offtopic_record (Some ''333''))) \<and>
   process_single_article (analyse_score 0)
     (extract_article_data (offtopic_record (Some ''333''))) = None \<and>
   processing_queue offtopic_found = [offtopic_item ''333'' ''metadata''] \<and>
   processing_worker (analyse_score 0) 2 offtopic_found = (initial {}, Some IndexError) \<and>
   processing_queue (initial {}) = [] \<and> store (initial {}) = [] \<and>
   processed_pmids (initial {}) = {}"
proof -
  have low: "process_single_article (analyse_score 0)
     (extract_article_data (offtopic_record (Some ''333''))) = None"
    by (rule low_score_filtered [where e = "the (analyse_score 0 [])"])
       (simp_all add: analyse_score_def float_0_3_def)
  have found: "offtopic_found = (initial {})\<lparr>processing_queue := [offtopic_item ''333'' ''metadata'']\<rparr>"
    by (simp add: offtopic_found_def put_if_new_def extract_article_data_def
        offtopic_record_def opt_str_def initial_def offtopic_item_def)
  have q: "processing_queue offtopic_found = [offtopic_item ''333'' ''metadata'']"
    by (simp add: found)
  have "processing_worker (analyse_score 0) 2 offtopic_found =
          (offtopic_found\<lparr>processing_queue := []\<rparr>, Some IndexError)"
    by (rule filtered_article_raises [OF q])
       (simp_all add: found initial_def offtopic_item_def low)
  with low q offtopic_scorable show ?thesis by (simp add: found initial_def)
qed

end
